theory Spec2Isabelle
  imports Main "HOL-Library.Sublist"
begin

section \<open>The step registry (build\_common.py)\<close>

text \<open>
  A registered step is the tuple \<open>(step_id, target, depends_on, func)\<close> that the
  decorator \<open>step\<close> appends to the module-level list \<open>_steps\<close>. Step ids and target
  names are Python strings, \<open>depends_on\<close> is a tuple of target names, and \<open>func\<close> is
  the decorated callable, kept abstract as \<open>'f\<close>.

  The two module globals \<open>_steps\<close> and \<open>_target_to_steps\<close> form the registry; every
  function that reads a global takes it as an argument here.
\<close>

record 'f build_step =
  step_id :: string
  target :: string
  depends_on :: "string list"
  func :: 'f

record 'f registry =
  reg_steps :: "'f build_step list"
  target_to_steps :: "string \<rightharpoonup> string list"

definition empty_registry :: "'f registry" where
  "empty_registry = \<lparr>reg_steps = [], target_to_steps = Map.empty\<rparr>"

text \<open>
  \<open>step(step_id, target, depends_on)(func)\<close>: the decorator body. It appends the tuple
  to \<open>_steps\<close> and the id to \<open>_target_to_steps.setdefault(target, [])\<close>; it has no
  other branch.
\<close>

definition step :: "string \<Rightarrow> string \<Rightarrow> string list \<Rightarrow> 'f \<Rightarrow> 'f registry \<Rightarrow> 'f registry" where
  "step sid tgt deps f reg =
     \<lparr>reg_steps = reg_steps reg @ [\<lparr>step_id = sid, target = tgt, depends_on = deps, func = f\<rparr>],
      target_to_steps =
        (target_to_steps reg)(tgt \<mapsto>
          (case target_to_steps reg tgt of None \<Rightarrow> [] | Some ids \<Rightarrow> ids) @ [sid])\<rparr>"

subsection \<open>The reverse-dependency graph\<close>

text \<open>
  \<open>get_dependency_graph\<close> builds a dict from a target to the set of targets that name it
  in \<open>depends_on\<close>. The dict is an association list in insertion order; a value, a
  Python set, is a duplicate-free list in insertion order. (The order in which Python
  iterates over a set is not specified; the traversal below returns a set, and
  \<open>bfs_reach\<close> shows that this set depends on the edges only.)
\<close>

type_synonym graph = "(string \<times> string list) list"

text \<open>\<open>dependents.setdefault(dep, set()).add(target)\<close>\<close>

fun setdefault_add :: "string \<Rightarrow> string \<Rightarrow> graph \<Rightarrow> graph" where
  "setdefault_add dep tgt [] = [(dep, [tgt])]"
| "setdefault_add dep tgt ((k, vs) # g) =
     (if k = dep then (k, if tgt \<in> set vs then vs else vs @ [tgt]) # g
      else (k, vs) # setdefault_add dep tgt g)"

text \<open>The inner loop \<open>for dep in deps\<close> and the outer loop over \<open>_steps\<close>.\<close>

fun add_deps :: "string \<Rightarrow> string list \<Rightarrow> graph \<Rightarrow> graph" where
  "add_deps tgt [] g = g"
| "add_deps tgt (dep # deps) g = add_deps tgt deps (setdefault_add dep tgt g)"

fun graph_loop :: "'f build_step list \<Rightarrow> graph \<Rightarrow> graph" where
  "graph_loop [] g = g"
| "graph_loop (s # rest) g = graph_loop rest (add_deps (target s) (depends_on s) g)"

definition get_dependency_graph :: "'f build_step list \<Rightarrow> graph" where
  "get_dependency_graph steps = graph_loop steps []"

text \<open>\<open>graph.get(t, [])\<close>\<close>

definition graph_get :: "graph \<Rightarrow> string \<Rightarrow> string list" where
  "graph_get g t = (case map_of g t of None \<Rightarrow> [] | Some vs \<Rightarrow> vs)"

subsection \<open>Downstream targets\<close>

text \<open>
  The \<open>while queue\<close> loop of \<open>get_downstream_targets\<close>, with the loop variables
  \<open>visited\<close> and \<open>queue\<close> as arguments. It is a total function: the termination proof
  below covers every graph, cyclic or not.
\<close>

function bfs :: "graph \<Rightarrow> string set \<Rightarrow> string list \<Rightarrow> string set" where
  "bfs g visited [] = visited"
| "bfs g visited (t # queue) =
     (if t \<in> visited then bfs g visited queue
      else bfs g (insert t visited) (queue @ graph_get g t))"
  by pat_completeness auto

termination bfs
proof (relation "measures [\<lambda>(g, visited, queue). card (fst ` set g - visited),
                           \<lambda>(g, visited, queue). length queue]")
  show "wf (measures [\<lambda>(g, visited, queue). card (fst ` set g - visited),
                      \<lambda>(g, visited, queue). length queue])"
    by simp
next
  fix g :: graph and visited :: "string set" and t :: string and queue :: "string list"
  assume "t \<in> visited"
  then show "((g, visited, queue), (g, visited, t # queue))
      \<in> measures [\<lambda>(g, visited, queue). card (fst ` set g - visited),
                   \<lambda>(g, visited, queue). length queue]"
    by simp
next
  fix g :: graph and visited :: "string set" and t :: string and queue :: "string list"
  assume nv: "t \<notin> visited"
  show "((g, insert t visited, queue @ graph_get g t), (g, visited, t # queue))
      \<in> measures [\<lambda>(g, visited, queue). card (fst ` set g - visited),
                   \<lambda>(g, visited, queue). length queue]"
  proof (cases "t \<in> fst ` set g")
    case True
    have fin: "finite (fst ` set g - visited)" by simp
    have "fst ` set g - insert t visited \<subset> fst ` set g - visited"
      using True nv by auto
    then have "card (fst ` set g - insert t visited) < card (fst ` set g - visited)"
      using fin by (rule psubset_card_mono[rotated])
    then show ?thesis by simp
  next
    case False
    then have "map_of g t = None"
      by (simp add: map_of_eq_None_iff)
    then have "graph_get g t = []"
      by (simp add: graph_get_def)
    moreover have "fst ` set g - insert t visited = fst ` set g - visited"
      using False by auto
    ultimately show ?thesis by simp
  qed
qed

definition get_downstream_targets :: "'f build_step list \<Rightarrow> string \<Rightarrow> string set" where
  "get_downstream_targets steps tgt =
     (let graph = get_dependency_graph steps;
          visited = bfs graph {} [tgt]
      in visited - {tgt})"

section \<open>The build planner (build.py)\<close>

text \<open>
  The manifest is a dict from step id to an entry; the planner only asks whether a key
  is present, so the entry type is left open here.

  \<open>force_targets\<close> is filled by the loop \<open>for t in requested_targets\<close>.
\<close>

definition force_targets_of :: "'f build_step list \<Rightarrow> string list \<Rightarrow> string set" where
  "force_targets_of steps requested_targets =
     fold (\<lambda>t force_targets. insert t force_targets \<union> get_downstream_targets steps t)
       requested_targets {}"

text \<open>
  The loop over \<open>_steps\<close>, with the loop variables \<open>rebuilt_this_run\<close> and
  \<open>to_run\<close> as arguments. The three \<open>if\<close> statements each set \<open>should_run\<close>.
\<close>

fun plan_loop :: "'f build_step list \<Rightarrow> (string \<rightharpoonup> 'e) \<Rightarrow> string set \<Rightarrow> string set
    \<Rightarrow> (string \<times> string \<times> 'f) list \<Rightarrow> (string \<times> string \<times> 'f) list" where
  "plan_loop [] manifest force_targets rebuilt_this_run to_run = to_run"
| "plan_loop (s # rest) manifest force_targets rebuilt_this_run to_run =
     (let should_run = False;
          should_run = (if manifest (step_id s) = None then True else should_run);
          should_run = (if target s \<in> force_targets then True else should_run);
          should_run = (if \<exists>dep \<in> set (depends_on s). dep \<in> rebuilt_this_run then True
                        else should_run)
      in if should_run
         then plan_loop rest manifest force_targets (insert (target s) rebuilt_this_run)
                (to_run @ [(step_id s, target s, func s)])
         else plan_loop rest manifest force_targets rebuilt_this_run to_run)"

definition determine_steps_to_run :: "'f build_step list \<Rightarrow> (string \<rightharpoonup> 'e) \<Rightarrow> string list
    \<Rightarrow> bool \<Rightarrow> (string \<times> string \<times> 'f) list" where
  "determine_steps_to_run steps manifest requested_targets full_rebuild =
     (if full_rebuild then map (\<lambda>s. (step_id s, target s, func s)) steps
      else plan_loop steps manifest (force_targets_of steps requested_targets) {} [])"

section \<open>The output directory and the manifest store (build\_common.py)\<close>

text \<open>
  The state outside the process is the directory \<open>OUTPUT_DIR\<close> and the clock.
  \<open>out_dir\<close> is \<open>None\<close> when the directory does not exist, and otherwise maps the name
  of each top-level entry to what is there: a file holding a JSON object (a manifest
  document, \<open>JsonFile\<close>), a file whose content is not JSON (an artifact, an empty or a
  half-written file, \<open>OtherFile\<close>), or a directory. A file that holds JSON other than
  an object, which \<open>save_manifest\<close> never writes, is not a state of this model. Paths
  are POSIX paths: renaming a file over an existing file replaces it.

  A manifest entry is \<open>{"completed_at": ..., "elapsed_seconds": ...}\<close>; both are
  clock readings, kept as integers (the unit is left open).

  Python exceptions are values of \<open>exn\<close>; \<open>Error msg\<close> stands for any exception a
  step action or the summary raises that \<open>except Exception\<close> catches.
\<close>

record manifest_entry =
  completed_at :: int
  elapsed_seconds :: int

type_synonym manifest = "string \<rightharpoonup> manifest_entry"

datatype node = JsonFile manifest | OtherFile | Directory

datatype exn = FileNotFoundError | IsADirectoryError | JSONDecodeError | Error string

record world =
  out_dir :: "(string \<rightharpoonup> node) option"
  now :: int

definition MANIFEST_FILE :: string where
  "MANIFEST_FILE = ''.build_manifest.json''"

text \<open>\<open>tmp = Path(str(MANIFEST_FILE) + ".tmp")\<close>\<close>

definition manifest_tmp :: string where
  "manifest_tmp = MANIFEST_FILE @ ''.tmp''"

text \<open>What is at a name of the output directory, \<open>None\<close> when nothing is.\<close>

definition entry_at :: "world \<Rightarrow> string \<Rightarrow> node option" where
  "entry_at w name = (case out_dir w of None \<Rightarrow> None | Some d \<Rightarrow> d name)"

definition load_manifest :: "world \<Rightarrow> exn + manifest" where
  "load_manifest w =
     (case entry_at w MANIFEST_FILE of
        None \<Rightarrow> Inr Map.empty
      | Some (JsonFile m) \<Rightarrow> Inr m
      | Some OtherFile \<Rightarrow> Inl JSONDecodeError
      | Some Directory \<Rightarrow> Inl IsADirectoryError)"

text \<open>
  \<open>save_manifest\<close> is four operations in sequence; each is a function of its own, so
  that the state between two of them can be named.
\<close>

text \<open>\<open>OUTPUT_DIR.mkdir(parents=True, exist_ok=True)\<close>\<close>

definition mkdir_output :: "world \<Rightarrow> world" where
  "mkdir_output w = (case out_dir w of None \<Rightarrow> w\<lparr>out_dir := Some Map.empty\<rparr> | Some d \<Rightarrow> w)"

text \<open>\<open>open(tmp, "w")\<close>: creates or truncates the file; fails on a directory.\<close>

definition open_tmp :: "world \<Rightarrow> exn option \<times> world" where
  "open_tmp w =
     (case out_dir w of
        None \<Rightarrow> (Some FileNotFoundError, w)
      | Some d \<Rightarrow>
          (case d manifest_tmp of
             Some Directory \<Rightarrow> (Some IsADirectoryError, w)
           | _ \<Rightarrow> (None, w\<lparr>out_dir := Some (d(manifest_tmp \<mapsto> OtherFile))\<rparr>)))"

text \<open>\<open>json.dump(manifest, f, indent=2)\<close> and the close at the end of \<open>with\<close>.\<close>

definition json_dump :: "manifest \<Rightarrow> world \<Rightarrow> world" where
  "json_dump m w =
     (case out_dir w of
        None \<Rightarrow> w
      | Some d \<Rightarrow> w\<lparr>out_dir := Some (d(manifest_tmp \<mapsto> JsonFile m))\<rparr>)"

text \<open>\<open>tmp.rename(MANIFEST_FILE)\<close>\<close>

definition rename_tmp :: "world \<Rightarrow> exn option \<times> world" where
  "rename_tmp w =
     (case out_dir w of
        None \<Rightarrow> (Some FileNotFoundError, w)
      | Some d \<Rightarrow>
          (case d manifest_tmp of
             None \<Rightarrow> (Some FileNotFoundError, w)
           | Some n \<Rightarrow>
               (case d MANIFEST_FILE of
                  Some Directory \<Rightarrow> (Some IsADirectoryError, w)
                | _ \<Rightarrow> (None, w\<lparr>out_dir := Some (d(MANIFEST_FILE \<mapsto> n, manifest_tmp := None))\<rparr>))))"

definition save_manifest :: "manifest \<Rightarrow> world \<Rightarrow> exn option \<times> world" where
  "save_manifest m w =
     (let w1 = mkdir_output w in
      case open_tmp w1 of
        (Some e, w2) \<Rightarrow> (Some e, w2)
      | (None, w2) \<Rightarrow> rename_tmp (json_dump m w2))"

text \<open>
  The states a call of \<open>save_manifest\<close> goes through before its last operation, the
  rename: the state at the call and the state after each operation that has returned. A
  call that is interrupted before the rename stops in one of them.
\<close>

definition save_manifest_states :: "manifest \<Rightarrow> world \<Rightarrow> world list" where
  "save_manifest_states m w =
     (let w1 = mkdir_output w in
      case open_tmp w1 of
        (Some e, w2) \<Rightarrow> [w, w1]
      | (None, w2) \<Rightarrow> [w, w1, w2, json_dump m w2])"

subsection \<open>Cleanup\<close>

definition endswith :: "string \<Rightarrow> string \<Rightarrow> bool" where
  "endswith name sfx = suffix sfx name"

definition startswith :: "string \<Rightarrow> string \<Rightarrow> bool" where
  "startswith name pfx = prefix pfx name"

text \<open>
  The body of the loop over \<open>OUTPUT_DIR.iterdir()\<close>: whether the item is removed
  (\<open>shutil.rmtree\<close> for a directory, \<open>unlink\<close> for a file).
\<close>

definition is_stale :: "string \<Rightarrow> bool" where
  "is_stale name =
     (if endswith name ''.tmp'' then True
      else if endswith name ''_old'' \<or> endswith name ''_building'' \<or> startswith name ''_''
      then True
      else False)"

definition cleanup_stale_artifacts :: "world \<Rightarrow> world" where
  "cleanup_stale_artifacts w =
     (case out_dir w of
        None \<Rightarrow> w
      | Some d \<Rightarrow> w\<lparr>out_dir := Some (\<lambda>name. if is_stale name then None else d name)\<rparr>)"

section \<open>The build executor (build.py)\<close>

text \<open>
  A step action \<open>func(con)\<close> and \<open>run_summary()\<close> are code outside the engine. An
  action may change the output directory and takes time; it returns \<open>Some e\<close> when it
  raises \<open>e\<close>. The summary only reads and prints. The DuckDB connection is in memory
  and leaves no trace; \<open>log\<close> writes to stderr; neither is part of the state.

  \<open>calls\<close> records, in order, each call the executor makes to an action or to the
  summary.
\<close>

type_synonym action = "world \<Rightarrow> exn option \<times> world"

datatype call = RunStep string | RunSummary

datatype loop_exit = Completed | StepFailed string exn | Escaped exn

text \<open>
  The loop \<open>for step_id, target, func in steps_to_run\<close>. \<open>StepFailed\<close> is the
  \<open>return False\<close> of the \<open>except\<close> branch; \<open>Escaped\<close> is an exception of
  \<open>save_manifest\<close>, which no handler catches.
\<close>

fun run_steps :: "(string \<times> string \<times> action) list \<Rightarrow> manifest \<Rightarrow> world \<Rightarrow> call list
    \<Rightarrow> loop_exit \<times> manifest \<times> world \<times> call list" where
  "run_steps [] manifest w calls = (Completed, manifest, w, calls)"
| "run_steps ((sid, tgt, f) # rest) manifest w calls =
     (let t0 = now w in
      case f w of
        (Some e, w1) \<Rightarrow> (StepFailed sid e, manifest, w1, calls @ [RunStep sid])
      | (None, w1) \<Rightarrow>
          (let elapsed = now w1 - t0;
               manifest' = manifest(sid \<mapsto> \<lparr>completed_at = now w1, elapsed_seconds = elapsed\<rparr>)
           in case save_manifest manifest' w1 of
                (Some e, w2) \<Rightarrow> (Escaped e, manifest', w2, calls @ [RunStep sid])
              | (None, w2) \<Rightarrow> run_steps rest manifest' w2 (calls @ [RunStep sid])))"

datatype outcome = Returned bool | Raised exn

definition run_build :: "action build_step list \<Rightarrow> (world \<Rightarrow> exn option) \<Rightarrow> string list \<Rightarrow> bool
    \<Rightarrow> bool \<Rightarrow> world \<Rightarrow> outcome \<times> world \<times> call list" where
  "run_build steps run_summary requested_targets full_rebuild dry_run w0 =
     (let w = cleanup_stale_artifacts w0 in
      case (if full_rebuild then Inr Map.empty else load_manifest w) of
        Inl e \<Rightarrow> (Raised e, w, [])
      | Inr manifest \<Rightarrow>
          (let steps_to_run = determine_steps_to_run steps manifest requested_targets full_rebuild
           in if steps_to_run = [] then
                (case run_summary w of
                   Some e \<Rightarrow> (Raised e, w, [RunSummary])
                 | None \<Rightarrow> (Returned True, w, [RunSummary]))
              else if dry_run then (Returned True, w, [])
              else
                (case run_steps steps_to_run manifest (mkdir_output w) [] of
                   (StepFailed sid e, m, w', calls) \<Rightarrow> (Returned False, w', calls)
                 | (Escaped e, m, w', calls) \<Rightarrow> (Raised e, w', calls)
                 | (Completed, m, w', calls) \<Rightarrow>
                     (case run_summary w' of
                        Some e \<Rightarrow> (Raised e, w', calls @ [RunSummary])
                      | None \<Rightarrow> (Returned True, w', calls @ [RunSummary])))))"

subsection \<open>The command line\<close>

text \<open>
  \<open>args\<close> is the namespace \<open>parse_args\<close> returns. \<open>main\<close> gives the exit status of
  the process: 0 when \<open>main\<close> returns, 1 for \<open>sys.exit(1)\<close>, for \<open>sys.exit\<close> with a
  message, and for an exception nothing catches.
\<close>

record args =
  targets :: "string list"
  full :: bool
  list_steps :: bool
  dry_run :: bool


section \<open>Specification vocabulary and examples\<close>

text \<open>
  Target \<open>tgt\<close> depends directly on target \<open>dep\<close> when a registered step that
  produces \<open>tgt\<close> names \<open>dep\<close> in its \<open>depends_on\<close>.
\<close>

definition depends_directly :: "'f build_step list \<Rightarrow> (string \<times> string) set" where
  "depends_directly steps =
     {(dep, tgt). \<exists>s \<in> set steps. target s = tgt \<and> dep \<in> set (depends_on s)}"

text \<open>The edges of a reverse-dependency graph: from a key to each member of its value.\<close>

definition edges :: "graph \<Rightarrow> (string \<times> string) set" where
  "edges g = {(a, b). b \<in> set (graph_get g a)}"

text \<open>A diamond (B and C read A, D reads B and C) and a two-step cycle.\<close>

definition diamond :: "unit build_step list" where
  "diamond = [\<lparr>step_id = ''a1'', target = ''A'', depends_on = [], func = ()\<rparr>,
              \<lparr>step_id = ''b1'', target = ''B'', depends_on = [''A''], func = ()\<rparr>,
              \<lparr>step_id = ''c1'', target = ''C'', depends_on = [''A''], func = ()\<rparr>,
              \<lparr>step_id = ''d1'', target = ''D'', depends_on = [''B'', ''C''], func = ()\<rparr>]"

definition cycle2 :: "unit build_step list" where
  "cycle2 = [\<lparr>step_id = ''x1'', target = ''X'', depends_on = [''Y''], func = ()\<rparr>,
             \<lparr>step_id = ''y1'', target = ''Y'', depends_on = [''X''], func = ()\<rparr>]"

text \<open>The tuple \<open>(step_id, target, func)\<close> the planner returns for a registered step.\<close>

definition item :: "'f build_step \<Rightarrow> string \<times> string \<times> 'f" where
  "item s = (step_id s, target s, func s)"

text \<open>
  The selection rule for the step at index \<open>i\<close>, given the set \<open>S\<close> of indices selected
  so far: (a) its id has no manifest entry, (b) its target is forced, (c) a target it
  depends on is the target of an earlier selected step.
\<close>

definition should_run_at :: "'f build_step list \<Rightarrow> (string \<rightharpoonup> 'e) \<Rightarrow> string set \<Rightarrow> nat set
    \<Rightarrow> nat \<Rightarrow> bool" where
  "should_run_at steps manifest force S i \<longleftrightarrow>
     manifest (step_id (steps ! i)) = None \<or> target (steps ! i) \<in> force \<or>
     (\<exists>j \<in> S. j < i \<and> target (steps ! j) \<in> set (depends_on (steps ! i)))"

text \<open>The six steps of the repository, in the order \<open>steps/__init__.py\<close> imports them.\<close>

definition pipeline :: "unit build_step list" where
  "pipeline =
     [\<lparr>step_id = ''tickers_v1'', target = ''tickers'', depends_on = [], func = ()\<rparr>,
      \<lparr>step_id = ''prices_v2'', target = ''prices'', depends_on = [''tickers''], func = ()\<rparr>,
      \<lparr>step_id = ''daily_aggs_v2'', target = ''daily_aggs'', depends_on = [''prices''],
        func = ()\<rparr>,
      \<lparr>step_id = ''hundred_day_aggs_v1'', target = ''hundred_day_aggs'',
        depends_on = [''daily_aggs''], func = ()\<rparr>,
      \<lparr>step_id = ''market_cap_v2'', target = ''market_cap'', depends_on = [''tickers''],
        func = ()\<rparr>,
      \<lparr>step_id = ''insider_trades_v2'', target = ''insider_trades'',
        depends_on = [''tickers''], func = ()\<rparr>]"

text \<open>A manifest with an entry for every step of \<open>pipeline\<close>.\<close>

definition pipeline_done :: "string \<rightharpoonup> unit" where
  "pipeline_done = map_of (map (\<lambda>s. (step_id s, ())) pipeline)"

text \<open>
  Example actions: \<open>touch name\<close> writes a file \<open>name\<close> into the output directory and
  takes one tick; \<open>failing msg\<close> raises and changes nothing. \<open>quiet_summary\<close> returns,
  \<open>broken_summary\<close> raises.
\<close>

definition touch :: "string \<Rightarrow> action" where
  "touch name w =
     (None, w\<lparr>out_dir := (case out_dir w of None \<Rightarrow> None | Some d \<Rightarrow> Some (d(name \<mapsto> OtherFile))),
              now := now w + 1\<rparr>)"

definition failing :: "string \<Rightarrow> action" where
  "failing msg w = (Some (Error msg), w)"

definition quiet_summary :: "world \<Rightarrow> exn option" where
  "quiet_summary w = None"

definition broken_summary :: "world \<Rightarrow> exn option" where
  "broken_summary w = Some (Error ''no parquet'')"

text \<open>Three steps A, B, C in a chain, where B's action raises.\<close>

definition abc_steps :: "action build_step list" where
  "abc_steps =
     [\<lparr>step_id = ''a1'', target = ''A'', depends_on = [], func = touch ''A.parquet''\<rparr>,
      \<lparr>step_id = ''b1'', target = ''B'', depends_on = [''A''], func = failing ''boom''\<rparr>,
      \<lparr>step_id = ''c1'', target = ''C'', depends_on = [''B''], func = touch ''C.parquet''\<rparr>]"

text \<open>The same chain with actions that all succeed.\<close>

definition ok_steps :: "action build_step list" where
  "ok_steps =
     [\<lparr>step_id = ''a1'', target = ''A'', depends_on = [], func = touch ''A.parquet''\<rparr>,
      \<lparr>step_id = ''b1'', target = ''B'', depends_on = [''A''], func = touch ''B.parquet''\<rparr>,
      \<lparr>step_id = ''c1'', target = ''C'', depends_on = [''B''], func = touch ''C.parquet''\<rparr>]"

text \<open>
  An output directory left by earlier runs: a manifest with an entry for a retired step
  id, a published artifact, and residue of an interrupted publish.
\<close>

definition old_manifest :: manifest where
  "old_manifest = [''z0'' \<mapsto> \<lparr>completed_at = 5, elapsed_seconds = 2\<rparr>]"

definition used_dir :: "string \<rightharpoonup> node" where
  "used_dir = [MANIFEST_FILE \<mapsto> JsonFile old_manifest, ''A.parquet'' \<mapsto> OtherFile,
               ''A.parquet.tmp'' \<mapsto> OtherFile, ''prices_old'' \<mapsto> Directory,
               ''prices_building'' \<mapsto> Directory, ''_staging'' \<mapsto> Directory]"

definition used_world :: world where
  "used_world = \<lparr>out_dir = Some used_dir, now = 10\<rparr>"

definition fresh_world :: world where
  "fresh_world = \<lparr>out_dir = None, now = 0\<rparr>"

text \<open>A registry with one step, and command lines used below.\<close>

definition one_step_registry :: "unit registry" where
  "one_step_registry = step ''tickers_v1'' ''tickers'' [] () empty_registry"



text \<open>
  Two steps registered against the dependency order: B reads A and is registered first.
  \<open>both_done\<close> has an entry for each.
\<close>

definition rev_steps :: "unit build_step list" where
  "rev_steps = [\<lparr>step_id = ''b1'', target = ''B'', depends_on = [''A''], func = ()\<rparr>,
                \<lparr>step_id = ''a1'', target = ''A'', depends_on = [], func = ()\<rparr>]"

definition both_done :: "string \<rightharpoonup> unit" where
  "both_done = [''a1'' \<mapsto> (), ''b1'' \<mapsto> ()]"


section \<open>Verified properties\<close>

subsection \<open>Downstream closure\<close>

lemma map_of_setdefault_add:
  "map_of (setdefault_add dep tgt g) t =
     (if t = dep
      then Some (case map_of g dep of None \<Rightarrow> [tgt]
                 | Some vs \<Rightarrow> if tgt \<in> set vs then vs else vs @ [tgt])
      else map_of g t)"
  by (induction dep tgt g rule: setdefault_add.induct) auto

lemma graph_get_setdefault_add:
  "set (graph_get (setdefault_add dep tgt g) t) =
     (if t = dep then insert tgt (set (graph_get g t)) else set (graph_get g t))"
  by (auto simp: graph_get_def map_of_setdefault_add split: option.splits)

lemma edges_setdefault_add: "edges (setdefault_add dep tgt g) = insert (dep, tgt) (edges g)"
  by (auto simp: edges_def graph_get_setdefault_add split: if_splits)

lemma edges_add_deps: "edges (add_deps tgt deps g) = (\<lambda>d. (d, tgt)) ` set deps \<union> edges g"
  by (induction deps arbitrary: g) (auto simp: edges_setdefault_add)

lemma edges_graph_loop: "edges (graph_loop steps g) = depends_directly steps \<union> edges g"
  by (induction steps arbitrary: g) (auto simp: edges_add_deps depends_directly_def)

lemma edges_empty: "edges [] = {}"
  by (simp add: edges_def graph_get_def)

lemma edges_dependency_graph: "edges (get_dependency_graph steps) = depends_directly steps"
  by (simp add: get_dependency_graph_def edges_graph_loop edges_empty)

lemma rtrancl_Image_step: "R\<^sup>* `` {t} = insert t (R\<^sup>* `` (R `` {t}))"
  by (auto intro: converse_rtrancl_into_rtrancl elim: converse_rtranclE)

lemma bfs_reach:
  assumes "edges g `` visited \<subseteq> visited \<union> set queue"
  shows "bfs g visited queue = visited \<union> (edges g)\<^sup>* `` set queue"
  using assms
proof (induction g visited queue rule: bfs.induct)
  case (1 g visited)
  then show ?case by simp
next
  case (2 g visited t queue)
  show ?case
  proof (cases "t \<in> visited")
    case True
    have inv: "edges g `` visited \<subseteq> visited \<union> set queue"
      using "2.prems" True by auto
    have closed: "edges g `` (visited \<union> (edges g)\<^sup>* `` set queue) \<subseteq> visited \<union> (edges g)\<^sup>* `` set queue"
      using inv by (auto intro: rtrancl_into_rtrancl)
    have "(edges g)\<^sup>* `` {t} \<subseteq> visited \<union> (edges g)\<^sup>* `` set queue"
    proof
      fix u assume "u \<in> (edges g)\<^sup>* `` {t}"
      then have "(t, u) \<in> (edges g)\<^sup>*" by simp
      then show "u \<in> visited \<union> (edges g)\<^sup>* `` set queue"
      proof (induction rule: rtrancl_induct)
        case base
        then show ?case using True by simp
      next
        case (step y z)
        then show ?case using closed by blast
      qed
    qed
    then have "visited \<union> (edges g)\<^sup>* `` set (t # queue) = visited \<union> (edges g)\<^sup>* `` set queue"
      by auto
    moreover have "bfs g visited (t # queue) = visited \<union> (edges g)\<^sup>* `` set queue"
      using "2.IH"(1)[OF True inv] True by simp
    ultimately show ?thesis by simp
  next
    case False
    have succ: "edges g `` {t} = set (graph_get g t)"
      by (auto simp: edges_def)
    have inv: "edges g `` insert t visited \<subseteq> insert t visited \<union> set (queue @ graph_get g t)"
      using "2.prems" succ by auto
    have "bfs g visited (t # queue) = insert t visited \<union> (edges g)\<^sup>* `` set (queue @ graph_get g t)"
      using "2.IH"(2)[OF False inv] False by simp
    also have "\<dots> = visited \<union> ((edges g)\<^sup>* `` {t} \<union> (edges g)\<^sup>* `` set queue)"
      using rtrancl_Image_step[of "edges g" t] succ by auto
    also have "\<dots> = visited \<union> (edges g)\<^sup>* `` set (t # queue)"
      by auto
    finally show ?thesis .
  qed
qed

text \<open>
  Claim C3. \<open>get_downstream_targets steps t\<close> is exactly the set of targets that
  depend on \<open>t\<close> directly or through a chain of direct dependencies, without \<open>t\<close>
  itself. The result is a set, so a target reached along two paths of a diamond is in it
  once. \<open>bfs\<close> is a total function (its termination is proved for every graph), so
  the equation also holds, with a value, when the dependencies form a cycle.
\<close>

theorem get_downstream_targets_closure:
  "get_downstream_targets steps t = {u. (t, u) \<in> (depends_directly steps)\<^sup>+} - {t}"
proof -
  have "bfs (get_dependency_graph steps) {} [t] = (depends_directly steps)\<^sup>* `` {t}"
    using bfs_reach[of "get_dependency_graph steps" "{}" "[t]"]
    by (simp add: edges_dependency_graph)
  then have "get_downstream_targets steps t = (depends_directly steps)\<^sup>* `` {t} - {t}"
    by (simp add: get_downstream_targets_def)
  also have "\<dots> = {u. (t, u) \<in> (depends_directly steps)\<^sup>+} - {t}"
    by (auto simp: rtrancl_eq_or_trancl)
  finally show ?thesis .
qed

theorem get_downstream_targets_closure_witness:
  "{u. (''A'', u) \<in> (depends_directly diamond)\<^sup>+} - {''A''} = {''B'', ''C'', ''D''} \<and>
   {u. (''X'', u) \<in> (depends_directly cycle2)\<^sup>+} - {''X''} = {''Y''}"
proof -
  have "get_downstream_targets diamond ''A'' = {''B'', ''C'', ''D''}"
    by (auto simp add: get_downstream_targets_def get_dependency_graph_def diamond_def
        graph_get_def)
  moreover have "get_downstream_targets cycle2 ''X'' = {''Y''}"
    by (auto simp add: get_downstream_targets_def get_dependency_graph_def cycle2_def
        graph_get_def)
  ultimately show ?thesis
    using get_downstream_targets_closure[of diamond "''A''"]
      get_downstream_targets_closure[of cycle2 "''X''"]
    by simp
qed

subsection \<open>The planner\<close>

lemma force_targets_fold:
  "fold (\<lambda>t F. insert t F \<union> get_downstream_targets steps t) ts F0 =
     F0 \<union> set ts \<union> (\<Union>t \<in> set ts. get_downstream_targets steps t)"
  by (induction ts arbitrary: F0) auto

lemma force_targets_of_eq:
  "force_targets_of steps requested =
     set requested \<union> (\<Union>t \<in> set requested. get_downstream_targets steps t)"
  using force_targets_fold[of steps requested "{}"] by (simp add: force_targets_of_def)

lemma plan_loop_step:
  "plan_loop (s # rest) manifest force rebuilt to_run =
     (if manifest (step_id s) = None \<or> target s \<in> force \<or> (\<exists>dep \<in> set (depends_on s). dep \<in> rebuilt)
      then plan_loop rest manifest force (insert (target s) rebuilt) (to_run @ [item s])
      else plan_loop rest manifest force rebuilt to_run)"
  by (auto simp: item_def Let_def)

lemma nths_above: "nths xs (insert (length xs) S) = nths xs S"
proof -
  have "filter (\<lambda>p. snd p \<in> insert (length xs) S) (zip xs [0..<length xs]) =
        filter (\<lambda>p. snd p \<in> S) (zip xs [0..<length xs])"
    by (rule filter_cong) (auto dest: set_zip_rightD)
  then show ?thesis by (simp add: nths_def)
qed

lemma nths_snoc_in: "S \<subseteq> {..<length pre} \<Longrightarrow> nths (pre @ [s]) (insert (length pre) S) = nths pre S @ [s]"
  by (auto simp: nths_append nths_Cons nths_above)

lemma nths_snoc_out: "S \<subseteq> {..<length pre} \<Longrightarrow> nths (pre @ [s]) S = nths pre S"
  by (auto simp: nths_append nths_Cons)

lemma plan_loop_selection:
  assumes "steps = pre @ rest"
    and "to_run = map item (nths pre S)"
    and "S \<subseteq> {..<length pre}"
    and "rebuilt = (\<lambda>j. target (steps ! j)) ` S"
    and "\<forall>i<length pre. i \<in> S \<longleftrightarrow> should_run_at steps manifest force S i"
  shows "\<exists>S'. plan_loop rest manifest force rebuilt to_run = map item (nths steps S') \<and>
           S' \<subseteq> {..<length steps} \<and>
           (\<forall>i<length steps. i \<in> S' \<longleftrightarrow> should_run_at steps manifest force S' i)"
  using assms
proof (induction rest arbitrary: pre S rebuilt to_run)
  case Nil
  then show ?case by auto
next
  case (Cons s rest)
  let ?n = "length pre"
  have steps: "steps = (pre @ [s]) @ rest" using Cons.prems(1) by simp
  have sn: "steps ! ?n = s" using Cons.prems(1) by simp
  have cond: "(manifest (step_id s) = None \<or> target s \<in> force \<or> (\<exists>dep \<in> set (depends_on s). dep \<in> rebuilt))
      \<longleftrightarrow> should_run_at steps manifest force S ?n"
    using Cons.prems(3,4) sn by (auto simp: should_run_at_def)
  show ?case
  proof (cases "should_run_at steps manifest force S ?n")
    case True
    let ?S = "insert ?n S"
    have stable: "\<And>i. i \<le> ?n \<Longrightarrow> should_run_at steps manifest force ?S i = should_run_at steps manifest force S i"
      by (auto simp: should_run_at_def)
    have "\<exists>S'. plan_loop rest manifest force (insert (target s) rebuilt) (to_run @ [item s]) = map item (nths steps S') \<and>
           S' \<subseteq> {..<length steps} \<and>
           (\<forall>i<length steps. i \<in> S' \<longleftrightarrow> should_run_at steps manifest force S' i)"
    proof (rule Cons.IH[OF steps])
      show "to_run @ [item s] = map item (nths (pre @ [s]) ?S)"
        using Cons.prems(2,3) by (simp add: nths_snoc_in)
      show "?S \<subseteq> {..<length (pre @ [s])}" using Cons.prems(3) by auto
      show "insert (target s) rebuilt = (\<lambda>j. target (steps ! j)) ` ?S"
        using Cons.prems(4) sn by simp
      show "\<forall>i<length (pre @ [s]). i \<in> ?S \<longleftrightarrow> should_run_at steps manifest force ?S i"
      proof (intro allI impI)
        fix i assume "i < length (pre @ [s])"
        then have le: "i \<le> ?n" by simp
        show "i \<in> ?S \<longleftrightarrow> should_run_at steps manifest force ?S i"
        proof (cases "i = ?n")
          case True
          then show ?thesis using stable[of ?n] \<open>should_run_at steps manifest force S ?n\<close> by simp
        next
          case False
          then have "i < ?n" using le by simp
          then show ?thesis using Cons.prems(5) stable[OF le] False by simp
        qed
      qed
    qed
    moreover have "plan_loop (s # rest) manifest force rebuilt to_run =
        plan_loop rest manifest force (insert (target s) rebuilt) (to_run @ [item s])"
      using True cond by (simp only: plan_loop_step if_True)
    ultimately show ?thesis by (simp only:)
  next
    case False
    have "\<exists>S'. plan_loop rest manifest force rebuilt to_run = map item (nths steps S') \<and>
           S' \<subseteq> {..<length steps} \<and>
           (\<forall>i<length steps. i \<in> S' \<longleftrightarrow> should_run_at steps manifest force S' i)"
    proof (rule Cons.IH[OF steps])
      show "to_run = map item (nths (pre @ [s]) S)"
        using Cons.prems(2,3) by (simp add: nths_snoc_out)
      show "S \<subseteq> {..<length (pre @ [s])}" using Cons.prems(3) by auto
      show "rebuilt = (\<lambda>j. target (steps ! j)) ` S" by (rule Cons.prems(4))
      show "\<forall>i<length (pre @ [s]). i \<in> S \<longleftrightarrow> should_run_at steps manifest force S i"
      proof (intro allI impI)
        fix i assume "i < length (pre @ [s])"
        then have le: "i \<le> ?n" by simp
        show "i \<in> S \<longleftrightarrow> should_run_at steps manifest force S i"
        proof (cases "i = ?n")
          case True
          then show ?thesis using False Cons.prems(3) by auto
        next
          case False
          then have "i < ?n" using le by simp
          then show ?thesis using Cons.prems(5) by simp
        qed
      qed
    qed
    moreover have "plan_loop (s # rest) manifest force rebuilt to_run =
        plan_loop rest manifest force rebuilt to_run"
      using False cond by (simp only: plan_loop_step if_False)
    ultimately show ?thesis by (simp only:)
  qed
qed

lemma downstream_reach:
  "get_downstream_targets steps t = {u. (t, u) \<in> (depends_directly steps)\<^sup>+} - {t}"
proof -
  have "bfs (get_dependency_graph steps) {} [t] = (depends_directly steps)\<^sup>* `` {t}"
    using bfs_reach[of "get_dependency_graph steps" "{}" "[t]"]
    by (simp add: edges_dependency_graph)
  then have "get_downstream_targets steps t = (depends_directly steps)\<^sup>* `` {t} - {t}"
    by (simp add: get_downstream_targets_def)
  also have "\<dots> = {u. (t, u) \<in> (depends_directly steps)\<^sup>+} - {t}"
    by (auto simp: rtrancl_eq_or_trancl)
  finally show ?thesis .
qed

lemma force_targets_closure:
  "force_targets_of steps requested =
     set requested \<union> {u. \<exists>t \<in> set requested. (t, u) \<in> (depends_directly steps)\<^sup>+}"
  unfolding force_targets_of_eq downstream_reach by auto

text \<open>
  Claim C1. With \<open>full_rebuild\<close> set the planner returns every registered step, in
  registration order, whatever the manifest holds. Otherwise it returns the steps at the
  indices of a set \<open>S\<close>, in registration order (\<open>nths\<close> keeps the order of the list),
  where an index is in \<open>S\<close> exactly when (a) the step's id has no manifest entry, or
  (b) its target is a requested target, or depends on a requested target directly or
  through a chain of direct dependencies, or (c) a target in its \<open>depends_on\<close> is the
  target of an earlier step that is in \<open>S\<close>.
\<close>

theorem determine_steps_to_run_selection:
  "determine_steps_to_run steps manifest requested True = map item steps \<and>
   (\<exists>S. determine_steps_to_run steps manifest requested False = map item (nths steps S) \<and>
        S \<subseteq> {..<length steps} \<and>
        (\<forall>i<length steps. i \<in> S \<longleftrightarrow>
           manifest (step_id (steps ! i)) = None \<or>
           target (steps ! i) \<in> set requested \<union>
             {u. \<exists>t \<in> set requested. (t, u) \<in> (depends_directly steps)\<^sup>+} \<or>
           (\<exists>j \<in> S. j < i \<and> target (steps ! j) \<in> set (depends_on (steps ! i)))))"
proof -
  have full: "determine_steps_to_run steps manifest requested True = map item steps"
    by (simp add: determine_steps_to_run_def item_def)
  have "\<exists>S'. plan_loop steps manifest (force_targets_of steps requested) {} [] = map item (nths steps S') \<and>
           S' \<subseteq> {..<length steps} \<and>
           (\<forall>i<length steps. i \<in> S' \<longleftrightarrow> should_run_at steps manifest (force_targets_of steps requested) S' i)"
    by (rule plan_loop_selection[where pre="[]" and S="{}"]) simp_all
  then have "\<exists>S. determine_steps_to_run steps manifest requested False = map item (nths steps S) \<and>
        S \<subseteq> {..<length steps} \<and>
        (\<forall>i<length steps. i \<in> S \<longleftrightarrow>
           manifest (step_id (steps ! i)) = None \<or>
           target (steps ! i) \<in> set requested \<union>
             {u. \<exists>t \<in> set requested. (t, u) \<in> (depends_directly steps)\<^sup>+} \<or>
           (\<exists>j \<in> S. j < i \<and> target (steps ! j) \<in> set (depends_on (steps ! i))))"
    unfolding determine_steps_to_run_def should_run_at_def force_targets_closure by simp
  with full show ?thesis by (rule conjI)
qed

lemma pipeline_downstream:
  "get_downstream_targets pipeline ''prices'' = {''daily_aggs'', ''hundred_day_aggs''}"
  by (auto simp add: get_downstream_targets_def get_dependency_graph_def pipeline_def graph_get_def)

theorem determine_steps_to_run_selection_witness:
  "determine_steps_to_run pipeline pipeline_done [''prices''] False =
     map item (nths pipeline {1, 2, 3}) \<and>
   both_done ''b1'' = Some () \<and>
   determine_steps_to_run rev_steps both_done [''A''] False = map item (nths rev_steps {0, 1}) \<and>
   map fst (determine_steps_to_run rev_steps both_done [''A''] False) = [''b1'', ''a1'']"
proof -
  from determine_steps_to_run_selection[of pipeline pipeline_done "[''prices'']"]
  obtain S where plan: "determine_steps_to_run pipeline pipeline_done [''prices''] False =
          map item (nths pipeline S)"
    and sub: "S \<subseteq> {..<length pipeline}"
    and char0: "\<forall>i<length pipeline. i \<in> S \<longleftrightarrow>
           pipeline_done (step_id (pipeline ! i)) = None \<or>
           target (pipeline ! i) \<in> set [''prices''] \<union>
             {u. \<exists>t \<in> set [''prices'']. (t, u) \<in> (depends_directly pipeline)\<^sup>+} \<or>
           (\<exists>j \<in> S. j < i \<and> target (pipeline ! j) \<in> set (depends_on (pipeline ! i)))"
    by blast
  have eq: "set [''prices''] \<union>
             {u. \<exists>t \<in> set [''prices'']. (t, u) \<in> (depends_directly pipeline)\<^sup>+} =
      set [''prices''] \<union> (\<Union>t \<in> set [''prices'']. get_downstream_targets pipeline t)"
    using force_targets_closure[of pipeline "[''prices'']"]
      force_targets_of_eq[of pipeline "[''prices'']"] by (simp only:)
  have char: "\<forall>i<length pipeline. i \<in> S \<longleftrightarrow>
           pipeline_done (step_id (pipeline ! i)) = None \<or>
           target (pipeline ! i) \<in> set [''prices''] \<union>
             (\<Union>t \<in> set [''prices'']. get_downstream_targets pipeline t) \<or>
           (\<exists>j \<in> S. j < i \<and> target (pipeline ! j) \<in> set (depends_on (pipeline ! i)))"
    using char0 unfolding eq .
  have len: "length pipeline = 6" by (simp add: pipeline_def)
  have tg: "map target pipeline = [''tickers'', ''prices'', ''daily_aggs'', ''hundred_day_aggs'',
      ''market_cap'', ''insider_trades'']"
    and dp: "map depends_on pipeline = [[], [''tickers''], [''prices''], [''daily_aggs''],
      [''tickers''], [''tickers'']]"
    and dn: "\<forall>i<6. pipeline_done (step_id (pipeline ! i)) \<noteq> None"
    by (simp_all add: pipeline_def pipeline_done_def nth_Cons' )
  have t: "\<And>i. i < 6 \<Longrightarrow> target (pipeline ! i) = map target pipeline ! i"
    and d: "\<And>i. i < 6 \<Longrightarrow> depends_on (pipeline ! i) = map depends_on pipeline ! i"
    using len by simp_all
  have c0: "0 \<notin> S"
    using char[rule_format, of 0] dn len by (simp add: t d tg dp pipeline_downstream)
  have c1: "1 \<in> S"
    using char[rule_format, of 1] len by (simp add: t d tg dp pipeline_downstream)
  have c2: "2 \<in> S"
    using char[rule_format, of 2] len by (simp add: t d tg dp pipeline_downstream)
  have c3: "3 \<in> S"
    using char[rule_format, of 3] len by (simp add: t d tg dp pipeline_downstream)
  have tick: "\<And>j. j < 6 \<Longrightarrow> target (pipeline ! j) = ''tickers'' \<Longrightarrow> j = 0"
  proof -
    fix j :: nat assume "j < 6" and tj: "target (pipeline ! j) = ''tickers''"
    then have "j = 0 \<or> j = 1 \<or> j = 2 \<or> j = 3 \<or> j = 4 \<or> j = 5" by arith
    then show "j = 0" using tj by (auto simp: t tg)
  qed
  have c4: "4 \<notin> S"
  proof
    assume "4 \<in> S"
    then have "\<exists>j \<in> S. j < 4 \<and> target (pipeline ! j) \<in> set (depends_on (pipeline ! 4))"
      using char[rule_format, of 4] dn len by (simp add: t d tg dp pipeline_downstream)
    then obtain j where "j \<in> S" "j < 4" "target (pipeline ! j) = ''tickers''"
      by (auto simp: d dp)
    then show False using tick[of j] c0 by simp
  qed
  have c5: "5 \<notin> S"
  proof
    assume "5 \<in> S"
    then have "\<exists>j \<in> S. j < 5 \<and> target (pipeline ! j) \<in> set (depends_on (pipeline ! 5))"
      using char[rule_format, of 5] dn len by (simp add: t d tg dp pipeline_downstream)
    then obtain j where "j \<in> S" "j < 5" "target (pipeline ! j) = ''tickers''"
      by (auto simp: d dp)
    then show False using tick[of j] c0 by simp
  qed
  have "S = {1, 2, 3}"
  proof
    show "S \<subseteq> {1, 2, 3}"
    proof
      fix i assume i: "i \<in> S"
      then have "i < 6" using sub len by auto
      then have "i = 0 \<or> i = 1 \<or> i = 2 \<or> i = 3 \<or> i = 4 \<or> i = 5" by arith
      then show "i \<in> {1, 2, 3}" using i c0 c4 c5 by auto
    qed
    show "{1, 2, 3} \<subseteq> S" using c1 c2 c3 by simp
  qed
  then have first: "determine_steps_to_run pipeline pipeline_done [''prices''] False =
     map item (nths pipeline {1, 2, 3})" using plan by simp
  from determine_steps_to_run_selection[of rev_steps both_done "[''A'']"]
  obtain T where rplan: "determine_steps_to_run rev_steps both_done [''A''] False =
          map item (nths rev_steps T)"
    and rsub: "T \<subseteq> {..<length rev_steps}"
    and rchar: "\<forall>i<length rev_steps. i \<in> T \<longleftrightarrow>
           both_done (step_id (rev_steps ! i)) = None \<or>
           target (rev_steps ! i) \<in> set [''A''] \<union>
             {u. \<exists>t \<in> set [''A'']. (t, u) \<in> (depends_directly rev_steps)\<^sup>+} \<or>
           (\<exists>j \<in> T. j < i \<and> target (rev_steps ! j) \<in> set (depends_on (rev_steps ! i)))"
    by blast
  have rlen: "length rev_steps = 2" by (simp add: rev_steps_def)
  have "(''A'', ''B'') \<in> depends_directly rev_steps"
    by (simp add: depends_directly_def rev_steps_def)
  then have edge: "(''A'', ''B'') \<in> (depends_directly rev_steps)\<^sup>+" by (rule r_into_trancl)
  have r0: "0 \<in> T"
    using rchar[rule_format, of 0] edge rlen by (simp add: rev_steps_def)
  have r1: "1 \<in> T"
    using rchar[rule_format, of 1] rlen by (simp add: rev_steps_def)
  have "T = {0, 1}"
  proof
    show "T \<subseteq> {0, 1}"
    proof
      fix i assume "i \<in> T"
      then have "i < 2" using rsub rlen by auto
      then show "i \<in> {0, 1}" by auto
    qed
    show "{0, 1} \<subseteq> T" using r0 r1 by simp
  qed
  then have second: "determine_steps_to_run rev_steps both_done [''A''] False =
      map item (nths rev_steps {0, 1})" using rplan by simp
  have nths: "nths rev_steps {0, 1} = rev_steps"
    by (simp add: rev_steps_def nths_Cons)
  have third: "map fst (determine_steps_to_run rev_steps both_done [''A''] False) = [''b1'', ''a1'']"
    unfolding second nths by (simp add: rev_steps_def item_def)
  have "both_done ''b1'' = Some ()" by (simp add: both_done_def)
  then show ?thesis using first second third by simp
qed

subsection \<open>The manifest store and the executor loop\<close>

lemma manifest_names_distinct: "MANIFEST_FILE \<noteq> manifest_tmp"
  by (simp add: manifest_tmp_def)

lemma entry_at_mkdir: "entry_at (mkdir_output w) name = entry_at w name"
  by (simp add: entry_at_def mkdir_output_def split: option.splits)

lemma now_mkdir: "now (mkdir_output w) = now w"
  by (simp add: mkdir_output_def split: option.splits)

lemma open_tmp_ok:
  assumes "open_tmp w = (None, w')"
  shows "\<exists>d. out_dir w = Some d \<and> w' = w\<lparr>out_dir := Some (d(manifest_tmp \<mapsto> OtherFile))\<rparr>"
  using assms by (auto simp: open_tmp_def split: option.splits node.splits)

lemma open_tmp_raise: "open_tmp w = (Some e, w') \<Longrightarrow> w' = w"
  by (auto simp: open_tmp_def split: option.splits node.splits)

lemma rename_tmp_raise: "rename_tmp w = (Some e, w') \<Longrightarrow> w' = w"
  by (auto simp: rename_tmp_def split: option.splits node.splits)

lemma rename_tmp_ok:
  assumes "rename_tmp w = (None, w')"
  shows "\<exists>d n. out_dir w = Some d \<and> d manifest_tmp = Some n \<and>
           w' = w\<lparr>out_dir := Some (d(MANIFEST_FILE \<mapsto> n, manifest_tmp := None))\<rparr>"
  using assms by (auto simp: rename_tmp_def split: option.splits node.splits)

lemma save_manifest_ok:
  assumes "save_manifest m w = (None, w')"
  shows "entry_at w' MANIFEST_FILE = Some (JsonFile m)"
    and "entry_at w' manifest_tmp = None"
    and "now w' = now w"
    and "name \<noteq> MANIFEST_FILE \<Longrightarrow> name \<noteq> manifest_tmp \<Longrightarrow> entry_at w' name = entry_at w name"
proof -
  obtain w2 where o: "open_tmp (mkdir_output w) = (None, w2)"
    and r: "rename_tmp (json_dump m w2) = (None, w')"
    using assms by (auto simp: save_manifest_def Let_def split: prod.splits option.splits)
  from open_tmp_ok[OF o] obtain d where d: "out_dir (mkdir_output w) = Some d"
    and w2: "w2 = (mkdir_output w)\<lparr>out_dir := Some (d(manifest_tmp \<mapsto> OtherFile))\<rparr>" by blast
  have jd: "json_dump m w2 = (mkdir_output w)\<lparr>out_dir := Some (d(manifest_tmp \<mapsto> JsonFile m))\<rparr>"
    by (simp add: json_dump_def w2)
  from rename_tmp_ok[OF r] jd
  have w': "w' = (mkdir_output w)\<lparr>out_dir := Some (d(manifest_tmp \<mapsto> JsonFile m, MANIFEST_FILE \<mapsto> JsonFile m, manifest_tmp := None))\<rparr>"
    by auto
  show "entry_at w' MANIFEST_FILE = Some (JsonFile m)"
    using manifest_names_distinct by (simp add: w' entry_at_def)
  show "entry_at w' manifest_tmp = None"
    by (simp add: w' entry_at_def)
  show "now w' = now w"
    by (simp add: w' now_mkdir)
  show "name \<noteq> MANIFEST_FILE \<Longrightarrow> name \<noteq> manifest_tmp \<Longrightarrow> entry_at w' name = entry_at w name"
    using d entry_at_mkdir[of w name] by (simp add: w' entry_at_def)
qed

lemma run_steps_Cons_fail:
  "f w = (Some e, w1) \<Longrightarrow>
   run_steps ((sid, tgt, f) # rest) m w cs = (StepFailed sid e, m, w1, cs @ [RunStep sid])"
  by simp

lemma run_steps_Cons_escape:
  "f w = (None, w1) \<Longrightarrow>
   save_manifest (m(sid \<mapsto> \<lparr>completed_at = now w1, elapsed_seconds = now w1 - now w\<rparr>)) w1
     = (Some e, w2) \<Longrightarrow>
   run_steps ((sid, tgt, f) # rest) m w cs =
     (Escaped e, m(sid \<mapsto> \<lparr>completed_at = now w1, elapsed_seconds = now w1 - now w\<rparr>), w2,
      cs @ [RunStep sid])"
  by (simp add: Let_def)

lemma run_steps_Cons_ok:
  "f w = (None, w1) \<Longrightarrow>
   save_manifest (m(sid \<mapsto> \<lparr>completed_at = now w1, elapsed_seconds = now w1 - now w\<rparr>)) w1
     = (None, w2) \<Longrightarrow>
   run_steps ((sid, tgt, f) # rest) m w cs =
     run_steps rest (m(sid \<mapsto> \<lparr>completed_at = now w1, elapsed_seconds = now w1 - now w\<rparr>)) w2
       (cs @ [RunStep sid])"
  by (simp add: Let_def)

lemma run_steps_append:
  "run_steps (pre @ post) m w cs =
     (case run_steps pre m w cs of
        (Completed, m', w', cs') \<Rightarrow> run_steps post m' w' cs'
      | r \<Rightarrow> r)"
proof (induction pre arbitrary: m w cs)
  case Nil
  then show ?case by simp
next
  case (Cons p pre)
  obtain sid tgt f where p: "p = (sid, tgt, f)" by (cases p)
  obtain r w1 where f: "f w = (r, w1)" by (cases "f w")
  show ?case
  proof (cases r)
    case (Some e)
    then have fe: "f w = (Some e, w1)" using f by simp
    show ?thesis
      unfolding p append_Cons run_steps_Cons_fail[where f=f and w=w, OF fe] by simp
  next
    case None
    then have fo: "f w = (None, w1)" using f by simp
    let ?m1 = "m(sid \<mapsto> \<lparr>completed_at = now w1, elapsed_seconds = now w1 - now w\<rparr>)"
    obtain r2 w2 where sv: "save_manifest ?m1 w1 = (r2, w2)" by (cases "save_manifest ?m1 w1")
    show ?thesis
    proof (cases r2)
      case (Some e)
      then have se: "save_manifest ?m1 w1 = (Some e, w2)" using sv by simp
      show ?thesis
        unfolding p append_Cons run_steps_Cons_escape[where f=f and w=w and m=m and sid=sid, OF fo se] by simp
    next
      case None2: None
      then have so: "save_manifest ?m1 w1 = (None, w2)" using sv by simp
      show ?thesis
        unfolding p append_Cons run_steps_Cons_ok[where f=f and w=w and m=m and sid=sid, OF fo so] by (rule Cons.IH)
    qed
  qed
qed

lemma run_steps_completed:
  assumes "run_steps pre m w cs = (Completed, m', w', cs')"
  shows "cs' = cs @ map (\<lambda>p. RunStep (fst p)) pre"
    and "\<forall>sid \<in> fst ` set pre. m' sid \<noteq> None"
    and "\<forall>sid. sid \<notin> fst ` set pre \<longrightarrow> m' sid = m sid"
    and "pre \<noteq> [] \<longrightarrow> entry_at w' MANIFEST_FILE = Some (JsonFile m')"
    and "pre = [] \<longrightarrow> w' = w \<and> m' = m"
  using assms
proof (induction pre arbitrary: m w cs)
  case Nil
  {
    case 1 then show ?case by simp
  next
    case 2 then show ?case by simp
  next
    case 3 then show ?case by simp
  next
    case 4 then show ?case by simp
  next
    case 5 then show ?case by simp
  }
next
  case (Cons p pre)
  obtain sid tgt f where p: "p = (sid, tgt, f)" by (cases p)
  {
    fix m w cs
    assume run: "run_steps (p # pre) m w cs = (Completed, m', w', cs')"
    obtain w1 where f: "f w = (None, w1)"
      using run by (auto simp: p Let_def split: prod.splits option.splits)
    let ?m1 = "m(sid \<mapsto> \<lparr>completed_at = now w1, elapsed_seconds = now w1 - now w\<rparr>)"
    obtain w2 where sv: "save_manifest ?m1 w1 = (None, w2)"
      using run f by (auto simp: p Let_def split: prod.splits option.splits)
    have rest: "run_steps pre ?m1 w2 (cs @ [RunStep sid]) = (Completed, m', w', cs')"
      using run unfolding p run_steps_Cons_ok[where f=f and w=w and m=m and sid=sid, OF f sv] .
    have "cs' = cs @ map (\<lambda>p. RunStep (fst p)) (p # pre)"
      using Cons.IH(1)[OF rest] by (simp add: p)
    moreover have "\<forall>sid \<in> fst ` set (p # pre). m' sid \<noteq> None"
    proof
      fix sid' assume in_set: "sid' \<in> fst ` set (p # pre)"
      show "m' sid' \<noteq> None"
      proof (cases "sid' \<in> fst ` set pre")
        case True
        then show ?thesis using Cons.IH(2)[OF rest] by blast
      next
        case False
        then have "sid' = sid" using in_set by (simp add: p)
        moreover have "m' sid' = ?m1 sid'" using Cons.IH(3)[OF rest] False by blast
        ultimately show ?thesis by simp
      qed
    qed
    moreover have "\<forall>sid. sid \<notin> fst ` set (p # pre) \<longrightarrow> m' sid = m sid"
      using Cons.IH(3)[OF rest] by (auto simp: p)
    moreover have "entry_at w' MANIFEST_FILE = Some (JsonFile m')"
    proof (cases "pre = []")
      case True
      then have "w' = w2" and "m' = ?m1" using Cons.IH(5)[OF rest] by blast+
      then show ?thesis using save_manifest_ok(1)[OF sv] by (simp only:)
    next
      case False
      then show ?thesis using Cons.IH(4)[OF rest] by simp
    qed
    ultimately have "cs' = cs @ map (\<lambda>p. RunStep (fst p)) (p # pre) \<and>
      (\<forall>sid \<in> fst ` set (p # pre). m' sid \<noteq> None) \<and>
      (\<forall>sid. sid \<notin> fst ` set (p # pre) \<longrightarrow> m' sid = m sid) \<and>
      entry_at w' MANIFEST_FILE = Some (JsonFile m')" by blast
  } note step = this
  {
    case 1 then show ?case using step by blast
  next
    case 2 then show ?case using step by blast
  next
    case 3 then show ?case using step by blast
  next
    case 4 then show ?case using step by blast
  next
    case 5 then show ?case by simp
  }
qed

subsection \<open>Fail-fast execution\<close>

lemma manifest_file_not_stale: "\<not> is_stale MANIFEST_FILE"
  by (simp add: is_stale_def MANIFEST_FILE_def endswith_def startswith_def suffix_to_prefix)

lemma manifest_tmp_stale: "is_stale manifest_tmp"
  by (simp add: is_stale_def manifest_tmp_def MANIFEST_FILE_def endswith_def suffix_to_prefix)

lemma entry_at_cleanup:
  "entry_at (cleanup_stale_artifacts w) name = (if is_stale name then None else entry_at w name)"
  by (simp add: entry_at_def cleanup_stale_artifacts_def split: option.splits)

lemma entry_at_cleanup_manifest:
  "entry_at (cleanup_stale_artifacts w) MANIFEST_FILE = entry_at w MANIFEST_FILE"
  by (simp add: entry_at_cleanup manifest_file_not_stale)

lemma run_steps_fail_at:
  assumes k: "k < length plan"
    and pre: "run_steps (take k plan) m w cs = (Completed, mk, wk, calls)"
    and pk: "plan ! k = (sid, tgt, f)"
    and f: "f wk = (Some e, w')"
  shows "run_steps plan m w cs =
           (StepFailed sid e, mk, w', cs @ map (\<lambda>p. RunStep (fst p)) (take (Suc k) plan))"
proof -
  have split: "plan = take k plan @ (sid, tgt, f) # drop (Suc k) plan"
    using id_take_nth_drop[OF k] pk by simp
  have calls: "calls = cs @ map (\<lambda>p. RunStep (fst p)) (take k plan)"
    by (rule run_steps_completed(1)[OF pre])
  have "run_steps plan m w cs = run_steps ((sid, tgt, f) # drop (Suc k) plan) mk wk calls"
    by (subst split, subst run_steps_append) (simp add: pre)
  also have "\<dots> = (StepFailed sid e, mk, w', calls @ [RunStep sid])"
    by (rule run_steps_Cons_fail[where f=f and w=wk, OF f])
  also have "calls @ [RunStep sid] = cs @ map (\<lambda>p. RunStep (fst p)) (take (Suc k) plan)"
    using calls pk by (simp add: take_Suc_conv_app_nth[OF k])
  finally show ?thesis .
qed

lemma is_stale_simps:
  "is_stale name = (suffix ''.tmp'' name \<or> suffix ''_old'' name \<or> suffix ''_building'' name \<or> prefix ''_'' name)"
  by (simp add: is_stale_def endswith_def startswith_def)

lemmas world_eval = cleanup_stale_artifacts_def mkdir_output_def open_tmp_def json_dump_def
  rename_tmp_def save_manifest_def entry_at_def load_manifest_def is_stale_simps
  suffix_to_prefix MANIFEST_FILE_def manifest_tmp_def touch_def failing_def used_world_def
  used_dir_def old_manifest_def fresh_world_def Let_def

lemmas plan_eval = determine_steps_to_run_def force_targets_of_def

lemma abc_plan: "determine_steps_to_run abc_steps old_manifest [] False =
  [(''a1'', ''A'', touch ''A.parquet''), (''b1'', ''B'', failing ''boom''), (''c1'', ''C'', touch ''C.parquet'')]"
  by (simp add: plan_eval abc_steps_def old_manifest_def)

lemma abc_load: "load_manifest (cleanup_stale_artifacts used_world) = Inr old_manifest"
  by (simp add: world_eval)

lemma abc_first: "fst (run_steps [(''a1'', ''A'', touch ''A.parquet'')] old_manifest
     (mkdir_output (cleanup_stale_artifacts used_world)) []) = Completed"
  by (simp add: world_eval)

text \<open>
  Claim C2. Take a run that is not a dry run, with the plan the planner returns for the
  manifest the run starts from. If the first \<open>k\<close> steps of the plan complete and the
  action of the next one raises, then \<open>run_build\<close> returns \<open>False\<close> in the state that
  action left; the calls it made are exactly the actions of the first \<open>k + 1\<close> planned
  steps, so no later step runs and the summary is not called; the manifest \<open>mk\<close>
  holds an entry for each of the first \<open>k\<close> steps and is the starting manifest at
  every other id; and when the failing action is called the manifest file holds \<open>mk\<close>
  (for \<open>k = 0\<close> nothing was saved and the file is as it was before the run). The
  file is still so after the run when the failing action itself left it alone.
\<close>

theorem run_build_fail_fast:
  assumes "\<not> dry"
    and "w = cleanup_stale_artifacts start"
    and "(if full_rebuild then Inr Map.empty else load_manifest w) = Inr manifest"
    and "plan = determine_steps_to_run steps manifest requested full_rebuild"
    and "k < length plan"
    and "run_steps (take k plan) manifest (mkdir_output w) [] = (Completed, mk, wk, calls)"
    and "plan ! k = (sid, tgt, f)"
    and "f wk = (Some e, w')"
  shows "run_build steps run_summary requested full_rebuild dry start =
           (Returned False, w', map (\<lambda>p. RunStep (fst p)) (take (Suc k) plan)) \<and>
         (\<forall>j<k. mk (fst (plan ! j)) \<noteq> None) \<and>
         (\<forall>sid'. sid' \<notin> fst ` set (take k plan) \<longrightarrow> mk sid' = manifest sid') \<and>
         entry_at wk MANIFEST_FILE =
           (if k = 0 then entry_at start MANIFEST_FILE else Some (JsonFile mk)) \<and>
         (entry_at w' MANIFEST_FILE = entry_at wk MANIFEST_FILE \<longrightarrow>
            entry_at w' MANIFEST_FILE =
              (if k = 0 then entry_at start MANIFEST_FILE else Some (JsonFile mk)))"
proof -
  have ne: "determine_steps_to_run steps manifest requested full_rebuild \<noteq> []"
    using assms(4,5) by auto
  have loop: "run_steps plan manifest (mkdir_output w) [] =
      (StepFailed sid e, mk, w', map (\<lambda>p. RunStep (fst p)) (take (Suc k) plan))"
    using run_steps_fail_at[OF assms(5,6,7,8)] by simp
  have 1: "run_build steps run_summary requested full_rebuild dry start =
           (Returned False, w', map (\<lambda>p. RunStep (fst p)) (take (Suc k) plan))"
  proof -
    have "run_build steps run_summary requested full_rebuild dry start =
        (case run_steps plan manifest (mkdir_output w) [] of
           (StepFailed sid e, m, w', calls) \<Rightarrow> (Returned False, w', calls)
         | (Escaped e, m, w', calls) \<Rightarrow> (Raised e, w', calls)
         | (Completed, m, w', calls) \<Rightarrow>
             (case run_summary w' of
                Some e \<Rightarrow> (Raised e, w', calls @ [RunSummary])
              | None \<Rightarrow> (Returned True, w', calls @ [RunSummary])))"
      unfolding run_build_def Let_def assms(2)[symmetric] assms(3) assms(4)[symmetric]
      using ne assms(1) by (simp add: assms(4)[symmetric])
    then show ?thesis by (simp only: loop prod.case loop_exit.case)
  qed
  have 2: "\<forall>j<k. mk (fst (plan ! j)) \<noteq> None"
  proof (intro allI impI)
    fix j assume "j < k"
    then have "take k plan ! j = plan ! j" and "j < length (take k plan)"
      using assms(5) by simp_all
    then have "plan ! j \<in> set (take k plan)"
      using nth_mem[of j "take k plan"] by simp
    then show "mk (fst (plan ! j)) \<noteq> None"
      using run_steps_completed(2)[OF assms(6)] by blast
  qed
  have 3: "\<forall>sid'. sid' \<notin> fst ` set (take k plan) \<longrightarrow> mk sid' = manifest sid'"
    by (rule run_steps_completed(3)[OF assms(6)])
  have 4: "entry_at wk MANIFEST_FILE =
           (if k = 0 then entry_at start MANIFEST_FILE else Some (JsonFile mk))"
  proof (cases "k = 0")
    case True
    then have "wk = mkdir_output w" using run_steps_completed(5)[OF assms(6)] by simp
    then show ?thesis
      using True by (simp add: entry_at_mkdir assms(2) entry_at_cleanup_manifest)
  next
    case False
    then have "take k plan \<noteq> []" using assms(5) by auto
    then show ?thesis
      using False run_steps_completed(4)[OF assms(6)] by simp
  qed
  have 5: "entry_at w' MANIFEST_FILE = entry_at wk MANIFEST_FILE \<longrightarrow>
            entry_at w' MANIFEST_FILE =
              (if k = 0 then entry_at start MANIFEST_FILE else Some (JsonFile mk))"
    using 4 by simp
  show ?thesis using 1 2 3 4 5 by blast
qed

theorem run_build_fail_fast_witness:
  "fst (run_build abc_steps quiet_summary [] False False used_world) = Returned False \<and>
   snd (snd (run_build abc_steps quiet_summary [] False False used_world)) =
     [RunStep ''a1'', RunStep ''b1''] \<and>
   (\<exists>m. entry_at (fst (snd (run_build abc_steps quiet_summary [] False False used_world)))
          MANIFEST_FILE = Some (JsonFile m) \<and>
        m ''a1'' \<noteq> None \<and> m ''b1'' = None \<and> m ''c1'' = None \<and> m ''z0'' = old_manifest ''z0'')"
proof -
  let ?plan = "determine_steps_to_run abc_steps old_manifest [] False"
  let ?w = "cleanup_stale_artifacts used_world"
  let ?R = "run_steps (take 1 ?plan) old_manifest (mkdir_output ?w) []"
  obtain mk wk calls where R: "?R = (Completed, mk, wk, calls)"
    using abc_first by (cases ?R) (simp add: abc_plan)
  have pk: "?plan ! 1 = (''b1'', ''B'', failing ''boom'')"
    by (simp add: abc_plan)
  have f: "failing ''boom'' wk = (Some (Error ''boom''), wk)"
    by (simp add: failing_def)
  have len: "1 < length ?plan" by (simp add: abc_plan)
  have ld: "(if False then Inr Map.empty else load_manifest ?w) = Inr old_manifest"
    by (simp add: abc_load)
  note t = run_build_fail_fast[where dry=False and full_rebuild=False and k=1 and start=used_world
      and steps=abc_steps and requested="[]" and run_summary=quiet_summary,
      OF _ refl ld refl len R pk f]
  then have rb: "run_build abc_steps quiet_summary [] False False used_world =
      (Returned False, wk, [RunStep ''a1'', RunStep ''b1''])"
    and a: "mk ''a1'' \<noteq> None"
    and frame: "\<forall>sid'. sid' \<noteq> ''a1'' \<longrightarrow> mk sid' = old_manifest sid'"
    and pers: "entry_at wk MANIFEST_FILE = Some (JsonFile mk)"
    by (simp_all add: abc_plan)
  have "mk ''b1'' = None" "mk ''c1'' = None" "mk ''z0'' = old_manifest ''z0''"
    using frame by (simp_all add: old_manifest_def)
  then show ?thesis using rb a pers by simp
qed

subsection \<open>Atomic save of the manifest\<close>

lemma load_manifest_absent: "entry_at w MANIFEST_FILE = None \<Longrightarrow> load_manifest w = Inr Map.empty"
  by (simp add: load_manifest_def)

lemma entry_at_open_tmp:
  "name \<noteq> manifest_tmp \<Longrightarrow> entry_at (snd (open_tmp w)) name = entry_at w name"
  by (auto simp: open_tmp_def entry_at_def split: option.splits node.splits)

lemma entry_at_json_dump:
  "name \<noteq> manifest_tmp \<Longrightarrow> entry_at (json_dump m w) name = entry_at w name"
  by (auto simp: json_dump_def entry_at_def split: option.splits)

lemma save_manifest_states_frame:
  assumes "w' \<in> set (save_manifest_states m w)"
  shows "entry_at w' MANIFEST_FILE = entry_at w MANIFEST_FILE"
proof -
  obtain r w2 where o: "open_tmp (mkdir_output w) = (r, w2)" by (cases "open_tmp (mkdir_output w)")
  have w2: "entry_at w2 MANIFEST_FILE = entry_at w MANIFEST_FILE"
    using entry_at_open_tmp[OF manifest_names_distinct, of "mkdir_output w"] o
    by (simp add: entry_at_mkdir)
  have "w' \<in> {w, mkdir_output w, w2, json_dump m w2}"
    using assms o by (cases r) (auto simp: save_manifest_states_def Let_def)
  then show ?thesis
    using w2 entry_at_json_dump[OF manifest_names_distinct, of m w2]
    by (auto simp: entry_at_mkdir)
qed

lemma save_manifest_last_state:
  "save_manifest m w =
     (if length (save_manifest_states m w) = 4 then rename_tmp (last (save_manifest_states m w))
      else (fst (open_tmp (mkdir_output w)), last (save_manifest_states m w)))"
proof -
  obtain r w2 where o: "open_tmp (mkdir_output w) = (r, w2)" by (cases "open_tmp (mkdir_output w)")
  show ?thesis
  proof (cases r)
    case None
    then show ?thesis using o by (simp add: save_manifest_def save_manifest_states_def Let_def)
  next
    case (Some e)
    then have "w2 = mkdir_output w" using o open_tmp_raise by blast
    then show ?thesis using o Some by (simp add: save_manifest_def save_manifest_states_def Let_def)
  qed
qed

lemma save_manifest_tmp_doc:
  assumes "length (save_manifest_states m w) = 4"
  shows "entry_at (last (save_manifest_states m w)) manifest_tmp = Some (JsonFile m)"
proof -
  obtain r w2 where o: "open_tmp (mkdir_output w) = (r, w2)" by (cases "open_tmp (mkdir_output w)")
  have r: "r = None" using assms o by (cases r) (simp_all add: save_manifest_states_def Let_def)
  from open_tmp_ok[OF o[unfolded r]] obtain d where "out_dir w2 = Some (d(manifest_tmp \<mapsto> OtherFile))"
    by auto
  then have "entry_at (json_dump m w2) manifest_tmp = Some (JsonFile m)"
    by (simp add: json_dump_def entry_at_def)
  then show ?thesis using o r by (simp add: save_manifest_states_def Let_def)
qed

text \<open>
  Claim C4. \<open>load_manifest\<close> returns the empty mapping when nothing is at the manifest
  path. In every state \<open>save_manifest\<close> goes through before its rename (also the one
  where the temporary file is half written), the manifest path holds what it held at the
  call, so \<open>load_manifest\<close> gives the same result there. \<open>save_manifest\<close> is those
  operations followed by the rename; when all four states are reached the temporary
  file, a name in the same directory, holds the whole document; and when the call returns,
  the manifest path holds exactly the document passed in and the temporary file is gone.
\<close>

theorem manifest_store_atomic:
  "(entry_at w MANIFEST_FILE = None \<longrightarrow> load_manifest w = Inr Map.empty) \<and>
   (\<forall>w' \<in> set (save_manifest_states m w). entry_at w' MANIFEST_FILE = entry_at w MANIFEST_FILE \<and>
        load_manifest w' = load_manifest w) \<and>
   save_manifest m w =
     (if length (save_manifest_states m w) = 4 then rename_tmp (last (save_manifest_states m w))
      else (fst (open_tmp (mkdir_output w)), last (save_manifest_states m w))) \<and>
   (length (save_manifest_states m w) = 4 \<longrightarrow>
      entry_at (last (save_manifest_states m w)) manifest_tmp = Some (JsonFile m)) \<and>
   (\<forall>w'. save_manifest m w = (None, w') \<longrightarrow>
      entry_at w' MANIFEST_FILE = Some (JsonFile m) \<and> entry_at w' manifest_tmp = None \<and>
      load_manifest w' = Inr m)"
proof (intro conjI)
  show "entry_at w MANIFEST_FILE = None \<longrightarrow> load_manifest w = Inr Map.empty"
    using load_manifest_absent[of w] by blast
  show "\<forall>w' \<in> set (save_manifest_states m w). entry_at w' MANIFEST_FILE = entry_at w MANIFEST_FILE \<and>
        load_manifest w' = load_manifest w"
  proof
    fix w' assume "w' \<in> set (save_manifest_states m w)"
    then have e: "entry_at w' MANIFEST_FILE = entry_at w MANIFEST_FILE"
      by (rule save_manifest_states_frame)
    then have "load_manifest w' = load_manifest w"
      by (simp only: load_manifest_def)
    with e show "entry_at w' MANIFEST_FILE = entry_at w MANIFEST_FILE \<and>
        load_manifest w' = load_manifest w" by (rule conjI)
  qed
  show "save_manifest m w =
     (if length (save_manifest_states m w) = 4 then rename_tmp (last (save_manifest_states m w))
      else (fst (open_tmp (mkdir_output w)), last (save_manifest_states m w)))"
    by (rule save_manifest_last_state)
  show "length (save_manifest_states m w) = 4 \<longrightarrow>
      entry_at (last (save_manifest_states m w)) manifest_tmp = Some (JsonFile m)"
    using save_manifest_tmp_doc[of m w] by blast
  show "\<forall>w'. save_manifest m w = (None, w') \<longrightarrow>
      entry_at w' MANIFEST_FILE = Some (JsonFile m) \<and> entry_at w' manifest_tmp = None \<and>
      load_manifest w' = Inr m"
  proof (intro allI impI)
    fix w' assume sv: "save_manifest m w = (None, w')"
    have 1: "entry_at w' MANIFEST_FILE = Some (JsonFile m)" by (rule save_manifest_ok(1)[OF sv])
    have 2: "entry_at w' manifest_tmp = None" by (rule save_manifest_ok(2)[OF sv])
    have 3: "load_manifest w' = Inr m" using 1 by (simp add: load_manifest_def)
    show "entry_at w' MANIFEST_FILE = Some (JsonFile m) \<and> entry_at w' manifest_tmp = None \<and>
      load_manifest w' = Inr m" using 1 2 3 by blast
  qed
qed

lemma map_const_replicate: "\<forall>x \<in> set xs. f x = c \<Longrightarrow> map f xs = replicate (length xs) c"
  by (induction xs) simp_all

theorem manifest_store_atomic_witness:
  "load_manifest fresh_world = Inr Map.empty \<and>
   map load_manifest
     (save_manifest_states [''a1'' \<mapsto> \<lparr>completed_at = 11, elapsed_seconds = 1\<rparr>] used_world) =
     [Inr old_manifest, Inr old_manifest, Inr old_manifest, Inr old_manifest] \<and>
   (\<exists>w'. save_manifest [''a1'' \<mapsto> \<lparr>completed_at = 11, elapsed_seconds = 1\<rparr>] used_world = (None, w') \<and>
      load_manifest w' = Inr [''a1'' \<mapsto> \<lparr>completed_at = 11, elapsed_seconds = 1\<rparr>])"
proof -
  let ?m = "[''a1'' \<mapsto> \<lparr>completed_at = 11, elapsed_seconds = 1\<rparr>]"
  note t1 = manifest_store_atomic[of fresh_world ?m]
  note t2 = manifest_store_atomic[of used_world ?m]
  have a: "entry_at fresh_world MANIFEST_FILE = None"
    by (simp add: entry_at_def fresh_world_def)
  have b: "load_manifest used_world = Inr old_manifest"
    by (simp add: world_eval)
  have o: "fst (open_tmp (mkdir_output used_world)) = None"
    by (simp add: world_eval)
  have c: "length (save_manifest_states ?m used_world) = 4"
    using o by (cases "open_tmp (mkdir_output used_world)")
      (simp add: save_manifest_states_def Let_def)
  have d: "fst (save_manifest ?m used_world) = None"
    by (simp add: world_eval)
  then obtain w' where e: "save_manifest ?m used_world = (None, w')"
    by (cases "save_manifest ?m used_world") simp
  have 1: "load_manifest fresh_world = Inr Map.empty"
    using t1 a by blast
  have "\<forall>w' \<in> set (save_manifest_states ?m used_world). load_manifest w' = Inr old_manifest"
    using t2 b by (simp only:) blast
  then have "map load_manifest (save_manifest_states ?m used_world) =
      replicate (length (save_manifest_states ?m used_world)) (Inr old_manifest)"
    by (rule map_const_replicate)
  then have 3: "map load_manifest (save_manifest_states ?m used_world) =
      [Inr old_manifest, Inr old_manifest, Inr old_manifest, Inr old_manifest]"
    by (simp add: c numeral_eq_Suc)
  have 4: "load_manifest w' = Inr ?m"
    using t2 e by blast
  show ?thesis using 1 3 4 e by blast
qed

subsection \<open>Cleanup in a dry run\<close>

lemma run_build_dry_world:
  "fst (snd (run_build steps run_summary requested full_rebuild True start)) =
     cleanup_stale_artifacts start"
  by (simp add: run_build_def Let_def split: sum.splits option.splits)

lemma run_build_dry_calls:
  "RunStep sid \<notin> set (snd (snd (run_build steps run_summary requested full_rebuild True start)))"
  by (simp add: run_build_def Let_def split: sum.splits option.splits)

text \<open>
  Claim C10. A dry run calls no step action, and still cleans: after
  \<open>run_build\<close> with \<open>dry_run\<close> set, an entry of the output directory whose name ends
  with \<open>.tmp\<close>, \<open>_old\<close> or \<open>_building\<close>, or starts with \<open>_\<close>, is gone, and every
  other entry is as it was.
\<close>

theorem dry_run_cleans:
  "(\<forall>sid. RunStep sid \<notin>
       set (snd (snd (run_build steps run_summary requested full_rebuild True start)))) \<and>
   (\<forall>name. entry_at (fst (snd (run_build steps run_summary requested full_rebuild True start))) name =
      (if endswith name ''.tmp'' \<or> endswith name ''_old'' \<or> endswith name ''_building'' \<or>
          startswith name ''_''
       then None else entry_at start name))"
proof (intro conjI allI)
  fix sid
  show "RunStep sid \<notin> set (snd (snd (run_build steps run_summary requested full_rebuild True start)))"
    by (rule run_build_dry_calls)
next
  fix name
  show "entry_at (fst (snd (run_build steps run_summary requested full_rebuild True start))) name =
      (if endswith name ''.tmp'' \<or> endswith name ''_old'' \<or> endswith name ''_building'' \<or>
          startswith name ''_''
       then None else entry_at start name)"
    unfolding run_build_dry_world entry_at_cleanup by (simp add: is_stale_def)
qed

theorem dry_run_cleans_witness:
  "entry_at used_world ''_staging'' = Some Directory \<and>
   entry_at used_world ''A.parquet.tmp'' = Some OtherFile \<and>
   entry_at (fst (snd (run_build abc_steps quiet_summary [] False True used_world))) ''_staging'' = None \<and>
   entry_at (fst (snd (run_build abc_steps quiet_summary [] False True used_world))) ''A.parquet.tmp'' = None \<and>
   entry_at (fst (snd (run_build abc_steps quiet_summary [] False True used_world))) ''prices_old'' = None \<and>
   entry_at (fst (snd (run_build abc_steps quiet_summary [] False True used_world))) ''prices_building'' = None \<and>
   entry_at (fst (snd (run_build abc_steps quiet_summary [] False True used_world))) ''A.parquet'' = Some OtherFile \<and>
   snd (snd (run_build abc_steps quiet_summary [] False True used_world)) = []"
proof -
  note t = dry_run_cleans[of abc_steps quiet_summary "[]" False used_world]
  have calls: "snd (snd (run_build abc_steps quiet_summary [] False True used_world)) = []"
    by (simp add: run_build_def abc_load abc_plan)
  have before: "entry_at used_world ''_staging'' = Some Directory"
      "entry_at used_world ''A.parquet.tmp'' = Some OtherFile"
      "entry_at used_world ''A.parquet'' = Some OtherFile"
    by (simp_all add: entry_at_def used_world_def used_dir_def MANIFEST_FILE_def)
  have names: "startswith ''_staging'' ''_''" "endswith ''A.parquet.tmp'' ''.tmp''"
      "endswith ''prices_old'' ''_old''" "endswith ''prices_building'' ''_building''"
      "\<not> (endswith ''A.parquet'' ''.tmp'' \<or> endswith ''A.parquet'' ''_old'' \<or>
          endswith ''A.parquet'' ''_building'' \<or> startswith ''A.parquet'' ''_'')"
    by (simp_all add: endswith_def startswith_def suffix_to_prefix)
  show ?thesis
    using t calls before names by simp
qed

subsection \<open>Registration\<close>

text \<open>
  Claim C6 says that registering an id that is already present fails. It does not:
  registering \<open>tickers_v1\<close> a second time gives a registry with two steps of that id.
\<close>

theorem step_duplicate_id_counterexample:
  "''tickers_v1'' \<in> step_id ` set (reg_steps one_step_registry) \<and>
   map step_id (reg_steps (step ''tickers_v1'' ''tickers'' [] () one_step_registry)) =
     [''tickers_v1'', ''tickers_v1''] \<and>
   target_to_steps (step ''tickers_v1'' ''tickers'' [] () one_step_registry) ''tickers'' =
     Some [''tickers_v1'', ''tickers_v1'']"
  by (simp add: one_step_registry_def step_def empty_registry_def)

text \<open>
  Claim C6, amended. \<open>step\<close> has no failure branch: it always appends the step to
  \<open>_steps\<close> and the id to the list of its target, so the number of registered steps
  with that id grows by one, whether or not the id was present.
\<close>

theorem step_appends:
  "reg_steps (step sid tgt deps f reg) =
     reg_steps reg @ [\<lparr>step_id = sid, target = tgt, depends_on = deps, func = f\<rparr>] \<and>
   target_to_steps (step sid tgt deps f reg) tgt =
     Some ((case target_to_steps reg tgt of None \<Rightarrow> [] | Some ids \<Rightarrow> ids) @ [sid]) \<and>
   length (filter (\<lambda>s. step_id s = sid) (reg_steps (step sid tgt deps f reg))) =
     Suc (length (filter (\<lambda>s. step_id s = sid) (reg_steps reg)))"
  by (simp add: step_def)

subsection \<open>Exit status\<close>




lemma ok_plan: "determine_steps_to_run ok_steps old_manifest [] False =
  [(''a1'', ''A'', touch ''A.parquet''), (''b1'', ''B'', touch ''B.parquet''), (''c1'', ''C'', touch ''C.parquet'')]"
  by (simp add: plan_eval ok_steps_def old_manifest_def)


lemma ok_run: "fst (run_build ok_steps quiet_summary [] False False used_world) = Returned True"
  apply (simp add: run_build_def abc_load ok_plan)
  apply (simp add: world_eval quiet_summary_def)
  done

theorem step_appends_witness:
  "map step_id (reg_steps (step ''prices_v2'' ''prices'' [''tickers''] () one_step_registry)) =
     [''tickers_v1'', ''prices_v2'']"
  using step_appends[of "''prices_v2''" "''prices''" "[''tickers'']" "()" one_step_registry]
  by (simp add: one_step_registry_def step_def empty_registry_def)


lemma fresh_plan: "determine_steps_to_run ok_steps Map.empty [] False =
  [(''a1'', ''A'', touch ''A.parquet''), (''b1'', ''B'', touch ''B.parquet''), (''c1'', ''C'', touch ''C.parquet'')]"
  by (simp add: plan_eval ok_steps_def)

lemma fresh_load: "load_manifest (cleanup_stale_artifacts fresh_world) = Inr Map.empty"
  by (simp add: world_eval)

text \<open>
  Claim C8 says that \<open>run_build\<close> returns success even if the summary raises. It does
  not: with three steps that all succeed and a summary that raises, the summary is called
  and its exception leaves \<open>run_build\<close>; no \<open>True\<close> is returned.
\<close>

theorem run_build_summary_raises_counterexample:
  "fst (run_build ok_steps broken_summary [] False False fresh_world) = Raised (Error ''no parquet'') \<and>
   snd (snd (run_build ok_steps broken_summary [] False False fresh_world)) =
     [RunStep ''a1'', RunStep ''b1'', RunStep ''c1'', RunSummary]"
  apply (simp add: run_build_def fresh_load fresh_plan)
  apply (simp add: world_eval broken_summary_def)
  done

text \<open>
  Claim C8, amended. When the plan is empty, or the run is not a dry run and every
  planned step completes, \<open>run_build\<close> calls the summary once, as its last call, on the
  state the loop left; the state it returns is that state, so the call changes neither
  the output directory nor the manifest. \<open>run_build\<close> returns \<open>True\<close> when the summary
  returns; when the summary raises, the exception leaves \<open>run_build\<close>.
\<close>

theorem run_build_summary:
  assumes "w = cleanup_stale_artifacts start"
    and "(if full_rebuild then Inr Map.empty else load_manifest w) = Inr manifest"
    and "plan = determine_steps_to_run steps manifest requested full_rebuild"
    and "plan = [] \<or> \<not> dry"
    and "run_steps plan manifest (if plan = [] then w else mkdir_output w) [] =
           (Completed, m', w', calls)"
  shows "run_build steps run_summary requested full_rebuild dry start =
           (case run_summary w' of None \<Rightarrow> Returned True | Some e \<Rightarrow> Raised e,
            w', calls @ [RunSummary])"
proof (cases "plan = []")
  case True
  then have "w' = w" "calls = []" using assms(5) by simp_all
  moreover have "determine_steps_to_run steps manifest requested full_rebuild = []"
    using True assms(3) by simp
  ultimately show ?thesis
    unfolding run_build_def Let_def assms(1)[symmetric] assms(2)
    by (simp split: option.splits)
next
  case False
  then have nd: "\<not> dry" using assms(4) by simp
  have loop: "run_steps plan manifest (mkdir_output w) [] = (Completed, m', w', calls)"
    using assms(5) False by simp
  have pe: "determine_steps_to_run steps manifest requested full_rebuild = plan"
    using assms(3) by simp
  show ?thesis
    unfolding run_build_def Let_def assms(1)[symmetric] assms(2) sum.case pe
    using False nd loop by (simp split: option.splits)
qed

theorem run_build_summary_witness:
  "fst (run_build ok_steps quiet_summary [] False False fresh_world) = Returned True \<and>
   snd (snd (run_build ok_steps quiet_summary [] False False fresh_world)) =
     [RunStep ''a1'', RunStep ''b1'', RunStep ''c1'', RunSummary] \<and>
   fst (run_build [] broken_summary [] False True fresh_world) = Raised (Error ''no parquet'')"
proof -
  let ?w = "cleanup_stale_artifacts fresh_world"
  let ?plan = "determine_steps_to_run ok_steps (Map.empty :: manifest) [] False"
  let ?R = "run_steps ?plan Map.empty (if ?plan = [] then ?w else mkdir_output ?w) []"
  have ld: "(if False then Inr Map.empty else load_manifest ?w) = Inr (Map.empty :: manifest)"
    by (simp add: fresh_load)
  have c: "fst ?R = Completed"
    apply (simp add: fresh_plan)
    apply (simp add: world_eval)
    done
  have cs: "snd (snd (snd ?R)) = [RunStep ''a1'', RunStep ''b1'', RunStep ''c1'']"
    apply (simp add: fresh_plan)
    apply (simp add: world_eval)
    done
  obtain m' w' calls where R: "?R = (Completed, m', w', calls)"
    using c by (cases ?R) simp
  have calls: "calls = [RunStep ''a1'', RunStep ''b1'', RunStep ''c1'']"
    using cs R by simp
  have nd: "?plan = [] \<or> \<not> False" by simp
  have 1: "run_build ok_steps quiet_summary [] False False fresh_world =
      (Returned True, w', calls @ [RunSummary])"
    using run_build_summary[where dry=False and full_rebuild=False and steps=ok_steps
        and requested="[]" and run_summary=quiet_summary and start=fresh_world,
        OF refl ld refl nd R]
    by (simp add: quiet_summary_def)
  let ?plan0 = "determine_steps_to_run ([] :: action build_step list) (Map.empty :: manifest) [] False"
  have p0: "?plan0 = []" by (simp add: plan_eval)
  have R0: "run_steps ?plan0 Map.empty (if ?plan0 = [] then ?w else mkdir_output ?w) [] =
      (Completed, Map.empty, ?w, [])"
    by (simp add: p0)
  have d0: "?plan0 = [] \<or> \<not> True" by (simp add: p0)
  have 2: "run_build [] broken_summary [] False True fresh_world =
      (Raised (Error ''no parquet''), ?w, [] @ [RunSummary])"
    using run_build_summary[where dry=True and full_rebuild=False
        and steps="[] :: action build_step list"
        and requested="[]" and run_summary=broken_summary and start=fresh_world,
        OF refl ld refl d0 R0]
    by (simp add: broken_summary_def)
  show ?thesis using 1 2 calls by simp
qed

subsection \<open>Planner idempotence\<close>

lemma plan_loop_all_done:
  "\<forall>s \<in> set steps. manifest (step_id s) \<noteq> None \<Longrightarrow> plan_loop steps manifest {} {} acc = acc"
proof (induction steps arbitrary: acc)
  case Nil
  then show ?case by simp
next
  case (Cons s steps)
  then have "manifest (step_id s) \<noteq> None" by simp
  then have "plan_loop (s # steps) manifest {} {} acc = plan_loop steps manifest {} {} acc"
    by (simp only: plan_loop_step) auto
  moreover have "plan_loop steps manifest {} {} acc = acc"
    using Cons by simp
  ultimately show ?case by (simp only:)
qed

lemma plan_loop_acc: "set acc \<subseteq> set (plan_loop steps manifest force rebuilt acc)"
proof (induction steps arbitrary: rebuilt acc)
  case Nil
  then show ?case by simp
next
  case (Cons s steps)
  have "set acc \<subseteq> set (acc @ [item s])" by auto
  then have 1: "set acc \<subseteq> set (plan_loop steps manifest force (insert (target s) rebuilt) (acc @ [item s]))"
    using Cons.IH[where rebuilt="insert (target s) rebuilt" and acc="acc @ [item s]"] by blast
  have 2: "set acc \<subseteq> set (plan_loop steps manifest force rebuilt acc)"
    by (rule Cons.IH)
  show ?case
    unfolding plan_loop_step using 1 2 by simp
qed

lemma plan_loop_new:
  "s \<in> set steps \<Longrightarrow> manifest (step_id s) = None \<Longrightarrow>
   step_id s \<in> fst ` set (plan_loop steps manifest force rebuilt acc)"
proof (induction steps arbitrary: rebuilt acc)
  case Nil
  then show ?case by simp
next
  case (Cons a steps)
  show ?case
  proof (cases "s = a")
    case True
    have "plan_loop (a # steps) manifest force rebuilt acc =
        plan_loop steps manifest force (insert (target a) rebuilt) (acc @ [item a])"
      using Cons.prems(2) True by (simp only: plan_loop_step) auto
    moreover have "item a \<in> set (plan_loop steps manifest force (insert (target a) rebuilt) (acc @ [item a]))"
      using plan_loop_acc[where acc="acc @ [item a]" and steps=steps and manifest=manifest
          and force=force and rebuilt="insert (target a) rebuilt"] by auto
    ultimately show ?thesis using True by (force simp: item_def)
  next
    case False
    then have "s \<in> set steps" using Cons.prems(1) by simp
    then have 1: "step_id s \<in> fst ` set (plan_loop steps manifest force
        (insert (target a) rebuilt) (acc @ [item a]))"
      and 2: "step_id s \<in> fst ` set (plan_loop steps manifest force rebuilt acc)"
      using Cons.IH Cons.prems(2) by blast+
    show ?thesis
      unfolding plan_loop_step using 1 2 by simp
  qed
qed

lemma plan_covers_new:
  assumes "s \<in> set steps" and "manifest (step_id s) = None"
  shows "step_id s \<in> fst ` set (determine_steps_to_run steps manifest requested full_rebuild)"
proof (cases full_rebuild)
  case True
  then show ?thesis using assms(1) by (force simp: determine_steps_to_run_def)
next
  case False
  then show ?thesis using plan_loop_new[where manifest=manifest, OF assms] by (simp add: determine_steps_to_run_def)
qed

lemma plan_all_done:
  "\<forall>s \<in> set steps. manifest (step_id s) \<noteq> None \<Longrightarrow>
   determine_steps_to_run steps manifest [] False = []"
  by (simp add: determine_steps_to_run_def force_targets_of_def plan_loop_all_done)

lemma load_manifest_cleanup: "load_manifest (cleanup_stale_artifacts w) = load_manifest w"
  by (simp add: load_manifest_def entry_at_cleanup_manifest)

lemma run_build_success_manifest:
  assumes "run_build steps run_summary requested full_rebuild False start = (Returned True, w', calls)"
  shows "\<forall>m'. load_manifest w' = Inr m' \<longrightarrow> (\<forall>s \<in> set steps. m' (step_id s) \<noteq> None)"
    and "steps \<noteq> [] \<longrightarrow> (\<exists>m'. load_manifest w' = Inr m')"
proof -
  let ?w = "cleanup_stale_artifacts start"
  obtain manifest where ld: "(if full_rebuild then Inr Map.empty else load_manifest ?w) = Inr manifest"
    using assms by (cases "if full_rebuild then Inr Map.empty else load_manifest ?w")
      (simp_all add: run_build_def Let_def)
  let ?plan = "determine_steps_to_run steps manifest requested full_rebuild"
  have rb: "run_build steps run_summary requested full_rebuild False start =
      (if ?plan = [] then
         (case run_summary ?w of
            Some e \<Rightarrow> (Raised e, ?w, [RunSummary])
          | None \<Rightarrow> (Returned True, ?w, [RunSummary]))
       else
         (case run_steps ?plan manifest (mkdir_output ?w) [] of
            (StepFailed sid e, m, w', calls) \<Rightarrow> (Returned False, w', calls)
          | (Escaped e, m, w', calls) \<Rightarrow> (Raised e, w', calls)
          | (Completed, m, w', calls) \<Rightarrow>
              (case run_summary w' of
                 Some e \<Rightarrow> (Raised e, w', calls @ [RunSummary])
               | None \<Rightarrow> (Returned True, w', calls @ [RunSummary]))))"
    unfolding run_build_def Let_def ld sum.case by simp
  have "(\<forall>m'. load_manifest w' = Inr m' \<longrightarrow> (\<forall>s \<in> set steps. m' (step_id s) \<noteq> None)) \<and>
        (steps \<noteq> [] \<longrightarrow> (\<exists>m'. load_manifest w' = Inr m'))"
  proof (cases "?plan = []")
    case True
    then have w': "w' = ?w" using assms rb by (simp split: option.splits)
    have all: "\<forall>s \<in> set steps. manifest (step_id s) \<noteq> None"
    proof (rule ccontr)
      assume "\<not> (\<forall>s \<in> set steps. manifest (step_id s) \<noteq> None)"
      then obtain s where "s \<in> set steps" "manifest (step_id s) = None" by blast
      from plan_covers_new[where manifest=manifest and requested=requested
          and full_rebuild=full_rebuild, OF this] True show False by simp
    qed
    show ?thesis
    proof (cases full_rebuild)
      case full: True
      then have "steps = []" using True by (simp add: determine_steps_to_run_def)
      then show ?thesis by simp
    next
      case False
      then have "load_manifest w' = Inr manifest" using ld w' by simp
      then show ?thesis using all by simp
    qed
  next
    case False
    obtain x m wf cs where R: "run_steps ?plan manifest (mkdir_output ?w) [] = (x, m, wf, cs)"
      by (cases "run_steps ?plan manifest (mkdir_output ?w) []")
    have "x = Completed \<and> wf = w'"
      using assms rb False R by (cases x) (simp_all split: option.splits)
    then have x: "x = Completed" and wf: "wf = w'" by simp_all
    note c = run_steps_completed[OF R[unfolded x wf]]
    have pers: "load_manifest w' = Inr m"
      using c(4) False by (simp add: load_manifest_def)
    have "\<forall>s \<in> set steps. m (step_id s) \<noteq> None"
    proof
      fix s assume s: "s \<in> set steps"
      show "m (step_id s) \<noteq> None"
      proof (cases "step_id s \<in> fst ` set ?plan")
        case True
        then show ?thesis using c(2) by blast
      next
        case nin: False
        then have "manifest (step_id s) \<noteq> None"
          using plan_covers_new[where manifest=manifest and requested=requested
              and full_rebuild=full_rebuild, OF s] by blast
        moreover have "m (step_id s) = manifest (step_id s)" using c(3) nin by blast
        ultimately show ?thesis by simp
      qed
    qed
    then show ?thesis using pers by simp
  qed
  then show "\<forall>m'. load_manifest w' = Inr m' \<longrightarrow> (\<forall>s \<in> set steps. m' (step_id s) \<noteq> None)"
    and "steps \<noteq> [] \<longrightarrow> (\<exists>m'. load_manifest w' = Inr m')" by blast+
qed

text \<open>
  Claim C5. Given a manifest with an entry for every registered step id, no requested
  target and no full rebuild, the plan is empty. And after a run that is not a dry run
  and returns \<open>True\<close>, the manifest the next run loads (after its cleanup) has an entry
  for every registered step id, so the plan of the next run with no request is empty;
  such a manifest can be loaded whenever a step is registered.
\<close>

theorem planner_idempotent:
  "((\<forall>s \<in> set steps. manifest (step_id s) \<noteq> None) \<longrightarrow>
      determine_steps_to_run steps manifest [] False = []) \<and>
   (run_build steps run_summary requested full_rebuild False start = (Returned True, w', calls) \<longrightarrow>
      (\<forall>m'. load_manifest (cleanup_stale_artifacts w') = Inr m' \<longrightarrow>
         (\<forall>s \<in> set steps. m' (step_id s) \<noteq> None) \<and>
         determine_steps_to_run steps m' [] False = []) \<and>
      (steps \<noteq> [] \<longrightarrow> (\<exists>m'. load_manifest (cleanup_stale_artifacts w') = Inr m')))"
proof (intro conjI impI allI)
  assume "\<forall>s \<in> set steps. manifest (step_id s) \<noteq> None"
  then show "determine_steps_to_run steps manifest [] False = []" by (rule plan_all_done)
next
  fix m'
  assume rb: "run_build steps run_summary requested full_rebuild False start = (Returned True, w', calls)"
    and ld: "load_manifest (cleanup_stale_artifacts w') = Inr m'"
  from ld have "load_manifest w' = Inr m'" by (simp add: load_manifest_cleanup)
  with run_build_success_manifest(1)[OF rb]
  show "\<forall>s \<in> set steps. m' (step_id s) \<noteq> None" by blast
  then show "determine_steps_to_run steps m' [] False = []" by (rule plan_all_done)
next
  assume rb: "run_build steps run_summary requested full_rebuild False start = (Returned True, w', calls)"
    and "steps \<noteq> []"
  with run_build_success_manifest(2)[OF rb]
  show "\<exists>m'. load_manifest (cleanup_stale_artifacts w') = Inr m'"
    by (simp add: load_manifest_cleanup)
qed

theorem planner_idempotent_witness:
  "determine_steps_to_run ok_steps [''a1'' \<mapsto> (), ''b1'' \<mapsto> (), ''c1'' \<mapsto> ()] [] False = [] \<and>
   (\<exists>m'. load_manifest (cleanup_stale_artifacts
            (fst (snd (run_build ok_steps quiet_summary [] False False used_world)))) = Inr m' \<and>
         determine_steps_to_run ok_steps m' [] False = [])"
proof -
  let ?d = "[''a1'' \<mapsto> (), ''b1'' \<mapsto> (), ''c1'' \<mapsto> ()]"
  have alld: "\<forall>s \<in> set ok_steps. ?d (step_id s) \<noteq> None"
    by (simp add: ok_steps_def)
  obtain w' calls where rb:
    "run_build ok_steps quiet_summary [] False False used_world = (Returned True, w', calls)"
    using ok_run by (cases "run_build ok_steps quiet_summary [] False False used_world") simp
  have ne: "ok_steps \<noteq> []" by (simp add: ok_steps_def)
  have 1: "determine_steps_to_run ok_steps ?d [] False = []"
    using planner_idempotent[of ok_steps ?d] alld by blast
  note t = planner_idempotent[of ok_steps Map.empty quiet_summary "[]" False used_world w' calls]
  have t2: "(\<forall>m'. load_manifest (cleanup_stale_artifacts w') = Inr m' \<longrightarrow>
         (\<forall>s \<in> set ok_steps. m' (step_id s) \<noteq> None) \<and>
         determine_steps_to_run ok_steps m' [] False = []) \<and>
      (ok_steps \<noteq> [] \<longrightarrow> (\<exists>m'. load_manifest (cleanup_stale_artifacts w') = Inr m'))"
    by (rule conjunct2[OF t, THEN mp, OF rb])
  then obtain m' where ld: "load_manifest (cleanup_stale_artifacts w') = Inr m'"
    using ne by blast
  with t2 have "determine_steps_to_run ok_steps m' [] False = []" by blast
  then show ?thesis using 1 ld rb by (simp only: fst_conv snd_conv) blast
qed

subsection \<open>Full rebuild\<close>

lemma full_plan: "determine_steps_to_run steps manifest requested True = map item steps"
  by (simp add: determine_steps_to_run_def item_def)

text \<open>
  Claim C9. In a full rebuild the loop starts from the empty manifest. Once the first
  \<open>i\<close> planned steps (\<open>i > 0\<close>) have completed, the manifest file holds the
  in-memory manifest, whose keys are exactly the ids of the first \<open>i\<close> registered
  steps: whatever earlier runs recorded is gone. If the action of the next step then
  raises (leaving the manifest file alone), \<open>run_build\<close> returns \<open>False\<close> and that
  manifest is what the next run loads.
\<close>

theorem full_rebuild_discards:
  assumes "0 < i" and "i \<le> length steps"
    and "plan = determine_steps_to_run steps (Map.empty :: manifest) requested True"
    and "run_steps (take i plan) Map.empty (mkdir_output (cleanup_stale_artifacts start)) [] =
           (Completed, mi, wi, calls)"
  shows "entry_at wi MANIFEST_FILE = Some (JsonFile mi) \<and>
         dom mi = step_id ` set (take i steps) \<and>
         (\<forall>sid tgt f e w'. i < length steps \<longrightarrow> plan ! i = (sid, tgt, f) \<longrightarrow>
            f wi = (Some e, w') \<longrightarrow> entry_at w' MANIFEST_FILE = entry_at wi MANIFEST_FILE \<longrightarrow>
            fst (run_build steps run_summary requested True False start) = Returned False \<and>
            load_manifest (fst (snd (run_build steps run_summary requested True False start))) =
              Inr mi)"
proof (intro conjI allI impI)
  have plan: "plan = map item steps" using assms(3) by (simp add: full_plan)
  have ne: "take i plan \<noteq> []" using assms(1,2) plan by auto
  note c = run_steps_completed[OF assms(4)]
  show pers: "entry_at wi MANIFEST_FILE = Some (JsonFile mi)"
    using c(4) ne by simp
  have ids: "fst ` set (take i plan) = step_id ` set (take i steps)"
    by (simp add: plan take_map image_image item_def)
  show "dom mi = step_id ` set (take i steps)"
  proof
    show "dom mi \<subseteq> step_id ` set (take i steps)"
    proof
      fix sid assume "sid \<in> dom mi"
      then have "mi sid \<noteq> None" by auto
      then have "sid \<in> fst ` set (take i plan)" using c(3) by force
      then show "sid \<in> step_id ` set (take i steps)" using ids by simp
    qed
    show "step_id ` set (take i steps) \<subseteq> dom mi"
      using c(2) ids by auto
  qed
  fix sid tgt f e w'
  assume k: "i < length steps" and pk: "plan ! i = (sid, tgt, f)"
    and f: "f wi = (Some e, w')"
    and frame: "entry_at w' MANIFEST_FILE = entry_at wi MANIFEST_FILE"
  have len: "i < length plan" using k plan by simp
  have loop: "run_steps plan Map.empty (mkdir_output (cleanup_stale_artifacts start)) [] =
      (StepFailed sid e, mi, w', [] @ map (\<lambda>p. RunStep (fst p)) (take (Suc i) plan))"
    by (rule run_steps_fail_at[OF len assms(4) pk f])
  have pne: "determine_steps_to_run steps (Map.empty :: manifest) requested True \<noteq> []"
    using len assms(3) by auto
  have rb: "run_build steps run_summary requested True False start =
      (Returned False, w', map (\<lambda>p. RunStep (fst p)) (take (Suc i) plan))"
    unfolding run_build_def Let_def if_True sum.case assms(3)[symmetric]
    using pne loop by (simp add: assms(3)[symmetric])
  show "fst (run_build steps run_summary requested True False start) = Returned False"
    by (simp add: rb)
  show "load_manifest (fst (snd (run_build steps run_summary requested True False start))) = Inr mi"
    using pers frame by (simp add: rb load_manifest_def)
qed

lemma abc_full_first: "fst (run_steps [(''a1'', ''A'', touch ''A.parquet'')] Map.empty
     (mkdir_output (cleanup_stale_artifacts used_world)) []) = Completed"
  by (simp add: world_eval)

theorem full_rebuild_discards_witness:
  "load_manifest used_world = Inr old_manifest \<and> old_manifest ''z0'' \<noteq> None \<and>
   fst (run_build abc_steps quiet_summary [] True False used_world) = Returned False \<and>
   (\<exists>m. load_manifest (fst (snd (run_build abc_steps quiet_summary [] True False used_world))) =
          Inr m \<and> dom m = {''a1''})"
proof -
  let ?plan = "determine_steps_to_run abc_steps (Map.empty :: manifest) [] True"
  have plan: "?plan = [(''a1'', ''A'', touch ''A.parquet''), (''b1'', ''B'', failing ''boom''),
      (''c1'', ''C'', touch ''C.parquet'')]"
    by (simp add: determine_steps_to_run_def abc_steps_def)
  let ?R = "run_steps (take 1 ?plan) Map.empty (mkdir_output (cleanup_stale_artifacts used_world)) []"
  obtain mi wi calls where R: "?R = (Completed, mi, wi, calls)"
    using abc_full_first by (cases ?R) (simp add: plan)
  have i: "(0::nat) < 1" "1 \<le> length abc_steps" "1 < length abc_steps"
    by (simp_all add: abc_steps_def)
  note t = full_rebuild_discards[where i=1 and steps=abc_steps and requested="[]"
      and start=used_world and run_summary=quiet_summary, OF i(1) i(2) refl R]
  have pk: "?plan ! 1 = (''b1'', ''B'', failing ''boom'')" by (simp add: plan)
  have f: "failing ''boom'' wi = (Some (Error ''boom''), wi)" by (simp add: failing_def)
  have dom: "dom mi = {''a1''}"
    using t by (simp add: abc_steps_def)
  have "fst (run_build abc_steps quiet_summary [] True False used_world) = Returned False \<and>
        load_manifest (fst (snd (run_build abc_steps quiet_summary [] True False used_world))) = Inr mi"
    using t i(3) pk f by blast
  moreover have "load_manifest used_world = Inr old_manifest"
    by (simp add: world_eval)
  moreover have "old_manifest ''z0'' \<noteq> None" by (simp add: old_manifest_def)
  ultimately show ?thesis using dom by blast
qed

end
